theory Spec2Isabelle
  imports Main "HOL-Library.Word"
begin

section \<open>The data of examples/c/proactor/direct.c\<close>

text \<open>
  A C \<open>int\<close> is a 32-bit word read as two's complement (\<open>sint\<close>); \<open>++\<close> is word
  addition, and a comparison of two \<open>int\<close>s compares their \<open>sint\<close> values.
  A \<open>size_t\<close> buffer size is a \<open>nat\<close>: the allocator's limit is not part of the model.
  Pointers to library objects are opaque handles (\<open>nat\<close>); a pointer that the code
  tests against \<open>NULL\<close>, or that the library may return as \<open>NULL\<close>, is an \<open>option\<close>.
\<close>

type_synonym c_int = "32 word"

datatype pn_event_type_t =
    PN_LISTENER_OPEN
  | PN_LISTENER_ACCEPT
  | PN_CONNECTION_INIT
  | PN_CONNECTION_BOUND
  | PN_CONNECTION_REMOTE_OPEN
  | PN_SESSION_REMOTE_OPEN
  | PN_TRANSPORT_CLOSED
  | PN_CONNECTION_REMOTE_CLOSE
  | PN_SESSION_REMOTE_CLOSE
  | PN_LINK_REMOTE_CLOSE
  | PN_LINK_REMOTE_DETACH
  | PN_PROACTOR_TIMEOUT
  | PN_LISTENER_CLOSE
  | PN_PROACTOR_INACTIVE
  | PN_LINK_REMOTE_OPEN
  | PN_LINK_FLOW
  | PN_DELIVERY
  | PN_EVENT_OTHER string \<comment> \<open>every event type the switch statements do not name\<close>

record pn_condition_t =
  condition_is_set :: bool
  condition_name :: string
  condition_description :: string

record pn_session_t =
  session_id :: nat
  session_connection :: "nat option" \<comment> \<open>\<open>pn_session_connection\<close>\<close>

record pn_link_t =
  link_id :: nat
  link_is_sender :: bool \<comment> \<open>\<open>pn_link_is_sender\<close>\<close>
  link_session :: pn_session_t \<comment> \<open>\<open>pn_link_session\<close>\<close>

record pn_delivery_t =
  dlv_id :: nat
  dlv_link :: pn_link_t \<comment> \<open>\<open>pn_delivery_link\<close>\<close>
  dlv_readable :: bool \<comment> \<open>\<open>pn_delivery_readable\<close>\<close>
  dlv_partial :: bool \<comment> \<open>\<open>pn_delivery_partial\<close>\<close>
  dlv_pending :: nat \<comment> \<open>\<open>pn_delivery_pending\<close>\<close>
  dlv_remote_state :: "64 word" \<comment> \<open>\<open>pn_delivery_remote_state\<close>\<close>
  dlv_recv :: int \<comment> \<open>what \<open>pn_link_recv\<close> returns for this delivery\<close>
  dlv_decoded :: "string option"
    \<comment> \<open>\<open>pn_message_decode\<close> on the bytes read: \<open>None\<close> when the result is not
        \<open>PN_OK\<close>, otherwise the text \<open>pn_inspect\<close> gives for the decoded body\<close>

record pn_event_t =
  ev_type :: pn_event_type_t \<comment> \<open>\<open>pn_event_type\<close>\<close>
  ev_listener :: "nat option" \<comment> \<open>\<open>pn_event_listener\<close>\<close>
  ev_transport :: "nat option" \<comment> \<open>\<open>pn_event_transport\<close>\<close>
  ev_connection :: "nat option" \<comment> \<open>\<open>pn_event_connection\<close>\<close>
  ev_session :: "nat option" \<comment> \<open>\<open>pn_event_session\<close>\<close>
  ev_link :: "pn_link_t option" \<comment> \<open>\<open>pn_event_link\<close>\<close>
  ev_delivery :: pn_delivery_t \<comment> \<open>\<open>pn_event_delivery\<close>, read for \<open>PN_DELIVERY\<close> only\<close>
  ev_transport_condition :: pn_condition_t
  ev_connection_remote_condition :: pn_condition_t
  ev_session_remote_condition :: pn_condition_t
  ev_link_remote_condition :: pn_condition_t
  ev_listener_condition :: pn_condition_t

text \<open>The message built by \<open>encode_message\<close>: an id and a body map of one entry.\<close>

record pn_message_t =
  message_id :: c_int
  message_body :: "(string \<times> c_int) list"

record pn_rwbytes_t =
  rw_size :: nat
  rw_start :: bool \<comment> \<open>\<open>False\<close> is the \<open>NULL\<close> pointer\<close>

record pn_bytes_t =
  bytes_size :: nat
  bytes_message :: pn_message_t \<comment> \<open>the message these bytes are the encoding of\<close>

record app_data_t =
  host :: string
  port :: string
  amqp_address :: string
  container_id :: string
  message_count :: c_int
  proactor :: nat
  listener :: nat
  message_buffer :: pn_rwbytes_t
  sent :: c_int
  acknowledged :: c_int
  sender :: "pn_link_t option"
  received :: c_int

text \<open>
  What the program does to the outside is kept as a list of actions, oldest first:
  the lines printed and the calls made into the library.
\<close>

datatype action =
    Stdout string
  | Stderr string
  | Connection_close "nat option"
  | Connection_open "nat option"
  | Connection_set_container "nat option" string
  | Connection_wake "nat option"
  | Transport_require_auth "nat option" bool
  | Sasl_allowed_mechs "nat option" string
  | Session_open "nat option"
  | Session_close nat
  | Listener_accept "nat option"
  | Listener_close nat
  | Terminus_set_address nat string
  | Link_open nat
  | Link_close nat
  | Link_flow nat c_int
  | Link_advance nat
  | Link_recv nat nat
  | Link_send nat pn_bytes_t
  | Delivery nat "8 word list"
  | Delivery_update nat "64 word"
  | Delivery_settle nat
  | Proactor_wait nat
  | Proactor_done nat

record world =
  app :: app_data_t
  exit_code :: c_int \<comment> \<open>the static \<open>exit_code\<close>\<close>
  link_credit :: "nat \<Rightarrow> c_int" \<comment> \<open>the library's credit balance of each link\<close>
  trace :: "action list"

text \<open>\<open>exit(1)\<close> ends the process: the error carries the status and the last state.\<close>

datatype error = Exit c_int world

section \<open>Constants\<close>

definition BATCH :: c_int where
  "BATCH = 1000"

definition MAX_SIZE :: nat where
  "MAX_SIZE = 1024"

definition initial_size :: nat where
  "initial_size = 128"

text \<open>Modelled from the spec: the codes of proton/error.h and proton/disposition.h,
  which are not among the source files. The codec "reports overflow distinctly from
  other failures", and a delivery's remote disposition is "unset / accepted / other".\<close>

definition PN_OVERFLOW :: c_int where
  "PN_OVERFLOW = - 3"

definition PN_ACCEPTED :: "64 word" where
  "PN_ACCEPTED = 0x24"

section \<open>The library calls\<close>

definition act :: "action \<Rightarrow> world \<Rightarrow> world" where
  "act a w = w\<lparr>trace := trace w @ [a]\<rparr>"

text \<open>Modelled from the spec: \<open>pn_link_credit\<close>, \<open>pn_link_flow\<close> and
  \<open>pn_link_advance\<close> of the library's link.c, which is not among the source files.
  Credit is "an integer counted per link", "consumed one unit per delivery", and a
  flow call grants "additional credit".\<close>

definition pn_link_credit :: "pn_link_t \<Rightarrow> world \<Rightarrow> c_int" where
  "pn_link_credit l w = link_credit w (link_id l)"

definition pn_link_flow :: "pn_link_t \<Rightarrow> c_int \<Rightarrow> world \<Rightarrow> world" where
  "pn_link_flow l n w =
     act (Link_flow (link_id l) n)
       (w\<lparr>link_credit := (link_credit w)(link_id l := link_credit w (link_id l) + n)\<rparr>)"

definition pn_link_advance :: "pn_link_t \<Rightarrow> world \<Rightarrow> world" where
  "pn_link_advance l w =
     act (Link_advance (link_id l))
       (w\<lparr>link_credit := (link_credit w)(link_id l := link_credit w (link_id l) - 1)\<rparr>)"

text \<open>Modelled from the spec: \<open>pn_event_type_name\<close> of the library's event.c, which
  is not among the source files; the diagnostic is "logged with endpoint type".\<close>

fun pn_event_type_name :: "pn_event_type_t \<Rightarrow> string" where
  "pn_event_type_name PN_LISTENER_OPEN = ''PN_LISTENER_OPEN''"
| "pn_event_type_name PN_LISTENER_ACCEPT = ''PN_LISTENER_ACCEPT''"
| "pn_event_type_name PN_CONNECTION_INIT = ''PN_CONNECTION_INIT''"
| "pn_event_type_name PN_CONNECTION_BOUND = ''PN_CONNECTION_BOUND''"
| "pn_event_type_name PN_CONNECTION_REMOTE_OPEN = ''PN_CONNECTION_REMOTE_OPEN''"
| "pn_event_type_name PN_SESSION_REMOTE_OPEN = ''PN_SESSION_REMOTE_OPEN''"
| "pn_event_type_name PN_TRANSPORT_CLOSED = ''PN_TRANSPORT_CLOSED''"
| "pn_event_type_name PN_CONNECTION_REMOTE_CLOSE = ''PN_CONNECTION_REMOTE_CLOSE''"
| "pn_event_type_name PN_SESSION_REMOTE_CLOSE = ''PN_SESSION_REMOTE_CLOSE''"
| "pn_event_type_name PN_LINK_REMOTE_CLOSE = ''PN_LINK_REMOTE_CLOSE''"
| "pn_event_type_name PN_LINK_REMOTE_DETACH = ''PN_LINK_REMOTE_DETACH''"
| "pn_event_type_name PN_PROACTOR_TIMEOUT = ''PN_PROACTOR_TIMEOUT''"
| "pn_event_type_name PN_LISTENER_CLOSE = ''PN_LISTENER_CLOSE''"
| "pn_event_type_name PN_PROACTOR_INACTIVE = ''PN_PROACTOR_INACTIVE''"
| "pn_event_type_name PN_LINK_REMOTE_OPEN = ''PN_LINK_REMOTE_OPEN''"
| "pn_event_type_name PN_LINK_FLOW = ''PN_LINK_FLOW''"
| "pn_event_type_name PN_DELIVERY = ''PN_DELIVERY''"
| "pn_event_type_name (PN_EVENT_OTHER s) = s"

section \<open>Formatted output\<close>

definition newline :: string where
  "newline = [CHR 0x0A]"

fun digit :: "nat \<Rightarrow> char" where
  "digit n = char_of (48 + n)"

function decimal :: "nat \<Rightarrow> string" where
  "decimal n = (if n < 10 then [digit n] else decimal (n div 10) @ [digit (n mod 10)])"
  by pat_completeness auto
termination
  by (relation "measure id") auto

declare decimal.simps [simp del]

text \<open>The conversion \<open>%d\<close> of \<open>printf\<close>.\<close>

definition printf_d :: "c_int \<Rightarrow> string" where
  "printf_d i = (if sint i < 0 then ''-'' @ decimal (nat (- sint i)) else decimal (nat (sint i)))"

section \<open>check_condition\<close>

definition check_condition :: "pn_event_t \<Rightarrow> pn_condition_t \<Rightarrow> world \<Rightarrow> world" where
  "check_condition e cond w =
     (if condition_is_set cond then
        let w1 = act (Stderr (pn_event_type_name (ev_type e) @ '': '' @ condition_name cond
                        @ '': '' @ condition_description cond @ newline)) w;
            w2 = act (Connection_close (ev_connection e)) w1
        in w2\<lparr>exit_code := 1\<rparr>
      else w)"

section \<open>encode_message\<close>

text \<open>
  The codec is the library's: \<open>pn_message_encode lib m n\<close> is the status and the
  size written back by \<open>pn_message_encode(m, start, &size)\<close> on a buffer of \<open>n\<close> bytes,
  \<open>pn_error_text lib m\<close> the text of \<open>pn_error_text(pn_message_error(m))\<close>.
\<close>

record pn_codec =
  pn_message_encode :: "pn_message_t \<Rightarrow> nat \<Rightarrow> c_int \<times> nat"
  pn_error_text :: "pn_message_t \<Rightarrow> string"

text \<open>
  The \<open>while\<close> loop of \<open>encode_message\<close>, on the size of \<open>app->message_buffer\<close> and
  the size of \<open>mbuf\<close>. It returns the last status and both sizes; a codec that reports
  overflow for ever keeps it running, which is the value \<open>None\<close>.
\<close>

partial_function (option) encode_loop ::
  "pn_codec \<Rightarrow> pn_message_t \<Rightarrow> nat \<Rightarrow> nat \<Rightarrow> (c_int \<times> nat \<times> nat) option" where
  "encode_loop lib message buffer_size mbuf_size =
     (if fst (pn_message_encode lib message mbuf_size) = PN_OVERFLOW
      then encode_loop lib message (buffer_size * 2) (buffer_size * 2)
      else Some (fst (pn_message_encode lib message mbuf_size), buffer_size,
                 snd (pn_message_encode lib message mbuf_size)))"

definition encode_message :: "pn_codec \<Rightarrow> world \<Rightarrow> (error + world \<times> pn_bytes_t) option" where
  "encode_message lib w =
     (let a = app w;
          message = \<lparr>message_id = sent a, message_body = [(''sequence'', sent a)]\<rparr>;
          buffer = (if \<not> rw_start (message_buffer a)
                    then \<lparr>rw_size = initial_size, rw_start = True\<rparr>
                    else message_buffer a)
      in case encode_loop lib message (rw_size buffer) (rw_size buffer) of
           None \<Rightarrow> None
         | Some (status, buffer_size, mbuf_size) \<Rightarrow>
             let w1 = w\<lparr>app := a\<lparr>message_buffer := \<lparr>rw_size = buffer_size, rw_start = True\<rparr>\<rparr>\<rparr>
             in if status \<noteq> 0 then
                  Some (Inl (Exit 1 (act (Stderr (''error encoding message: ''
                                        @ pn_error_text lib message @ newline)) w1)))
                else Some (Inr (w1, \<lparr>bytes_size = mbuf_size, bytes_message = message\<rparr>)))"

section \<open>decode_message\<close>

definition decode_message :: "pn_delivery_t \<Rightarrow> world \<Rightarrow> world" where
  "decode_message dlv w =
     (if dlv_pending dlv < MAX_SIZE then
        let w1 = act (Link_recv (link_id (dlv_link dlv)) MAX_SIZE) w;
            len = dlv_recv dlv
        in if 0 < len then
             (case dlv_decoded dlv of
                Some s \<Rightarrow> act (Stdout (s @ newline)) w1
              | None \<Rightarrow> w1)
           else w1
      else w)"

section \<open>handle_receive\<close>

text \<open>The link \<open>l\<close> is \<open>pn_event_link(event)\<close>, which \<open>handle\<close> has found not to be
  \<open>NULL\<close> before it calls \<open>handle_receive\<close> or \<open>handle_send\<close>.\<close>

definition handle_receive :: "pn_link_t \<Rightarrow> pn_event_t \<Rightarrow> world \<Rightarrow> world" where
  "handle_receive l event w =
     (case ev_type event of
        PN_LINK_REMOTE_OPEN \<Rightarrow>
          pn_link_flow l (if message_count (app w) \<noteq> 0 then message_count (app w) else BATCH)
            (act (Link_open (link_id l)) w)
      | PN_DELIVERY \<Rightarrow>
          (let dlv = ev_delivery event in
           if dlv_readable dlv \<and> \<not> dlv_partial dlv then
             let link = dlv_link dlv;
                 w1 = decode_message dlv w;
                 w2 = act (Delivery_update (dlv_id dlv) PN_ACCEPTED) w1;
                 w3 = pn_link_advance link w2;
                 w4 = act (Delivery_settle (dlv_id dlv)) w3
             in if message_count (app w4) = 0 then
                  (if sint (pn_link_credit link w4) < sint BATCH div 2
                   then pn_link_flow link (BATCH - pn_link_credit link w4) w4
                   else w4)
                else
                  let w5 = w4\<lparr>app := (app w4)\<lparr>received := received (app w4) + 1\<rparr>\<rparr>
                  in if sint (message_count (app w5)) \<le> sint (received (app w5)) then
                       let w6 = act (Stdout (printf_d (received (app w5))
                                       @ '' messages received'' @ newline)) w5;
                           ssn = link_session link;
                           w7 = act (Link_close (link_id link)) w6;
                           w8 = act (Session_close (session_id ssn)) w7
                       in act (Connection_close (session_connection ssn)) w8
                     else w5
           else w)
      | _ \<Rightarrow> w)"

section \<open>handle_send\<close>

text \<open>\<open>pn_dtag((const char *)&app->sent, sizeof(app->sent))\<close>: the four bytes of the
  counter as they lie in memory, which on a little-endian host is lowest byte first.\<close>

definition pn_dtag :: "c_int \<Rightarrow> 8 word list" where
  "pn_dtag x = map (\<lambda>i. ucast (drop_bit (8 * i) x)) [0, 1, 2, 3]"

text \<open>The \<open>while\<close> loop of the \<open>PN_LINK_FLOW\<close> case.\<close>

function send_loop :: "pn_codec \<Rightarrow> pn_link_t \<Rightarrow> world \<Rightarrow> (error + world) option" where
  "send_loop lib lnk w =
     (if 0 < sint (pn_link_credit lnk w) \<and> sint (sent (app w)) < sint (message_count (app w))
      then
        let w1 = w\<lparr>app := (app w)\<lparr>sent := sent (app w) + 1\<rparr>\<rparr>;
            w2 = act (Delivery (link_id lnk) (pn_dtag (sent (app w1)))) w1
        in case encode_message lib w2 of
             None \<Rightarrow> None
           | Some (Inl x) \<Rightarrow> Some (Inl x)
           | Some (Inr (w3, msgbuf)) \<Rightarrow>
               send_loop lib lnk
                 (pn_link_advance lnk (act (Link_send (link_id lnk) msgbuf) w3))
      else Some (Inr w))"
  by pat_completeness auto
termination
proof (relation "measure (\<lambda>(lib, lnk, w). nat (sint (message_count (app w)) - sint (sent (app w))))")
  show "wf (measure (\<lambda>(lib, lnk, w). nat (sint (message_count (app w)) - sint (sent (app w)))))"
    by simp
next
  fix lib :: pn_codec and lnk :: pn_link_t and w w1 w2 :: world
    and x2 :: "error + world \<times> pn_bytes_t" and b :: "world \<times> pn_bytes_t"
    and w3 :: world and msgbuf :: pn_bytes_t
  assume guard: "0 < sint (pn_link_credit lnk w)
       \<and> sint (sent (app w)) < sint (message_count (app w))"
    and w1: "w1 = w\<lparr>app := (app w)\<lparr>sent := sent (app w) + 1\<rparr>\<rparr>"
    and w2: "w2 = act (Delivery (link_id lnk) (pn_dtag (sent (app w1)))) w1"
    and enc: "encode_message lib w2 = Some x2" "x2 = Inr b" "(w3, msgbuf) = b"
  from enc have same:
    "sent (app w3) = sent (app w2)" "message_count (app w3) = message_count (app w2)"
    by (auto simp: encode_message_def Let_def split: option.splits if_splits prod.splits)
  have lt: "sint (sent (app w)) < sint (message_count (app w))"
    using guard by simp
  have "sint (message_count (app w)) \<le> 2 ^ 31 - 1"
    using sint_lt [of "message_count (app w)"] by simp
  with lt have "sint (sent (app w)) + 1 < 2 ^ 31" "- (2 ^ 31) \<le> sint (sent (app w)) + 1"
    using sint_ge [of "sent (app w)"] by simp_all
  then have "sint (sent (app w) + 1) = sint (sent (app w)) + 1"
    by (simp add: sint_word_ariths signed_take_bit_int_eq_self)
  with lt same w1 w2
  show "((lib, lnk, pn_link_advance lnk (act (Link_send (link_id lnk) msgbuf) w3)),
         (lib, lnk, w)) \<in> measure (\<lambda>(lib, lnk, w).
            nat (sint (message_count (app w)) - sint (sent (app w))))"
    by (simp add: pn_link_advance_def act_def)
qed

declare send_loop.simps [simp del]

definition handle_send :: "pn_codec \<Rightarrow> pn_link_t \<Rightarrow> pn_event_t \<Rightarrow> world \<Rightarrow> (error + world) option" where
  "handle_send lib l event w =
     (case ev_type event of
        PN_LINK_REMOTE_OPEN \<Rightarrow>
          Some (Inr (act (Link_open (link_id l))
                      (act (Terminus_set_address (link_id l) (amqp_address (app w))) w)))
      | PN_LINK_FLOW \<Rightarrow> send_loop lib l w
      | PN_DELIVERY \<Rightarrow>
          (let d = ev_delivery event in
           if dlv_remote_state d = PN_ACCEPTED then
             let w1 = w\<lparr>app := (app w)\<lparr>acknowledged := acknowledged (app w) + 1\<rparr>\<rparr>
             in if acknowledged (app w1) = message_count (app w1) then
                  let w2 = act (Stdout (printf_d (acknowledged (app w1))
                                  @ '' messages sent and acknowledged'' @ newline)) w1
                  in Some (Inr (act (Connection_close (ev_connection event)) w2))
                else Some (Inr w1)
           else Some (Inr w))
      | _ \<Rightarrow> Some (Inr w))"

section \<open>handle\<close>

text \<open>The result holds the state and what \<open>handle\<close> returns: \<open>True\<close> to continue,
  \<open>False\<close> to exit. The case \<open>PN_CONNECTION_BOUND\<close> falls through into
  \<open>PN_CONNECTION_REMOTE_OPEN\<close>. For \<open>PN_PROACTOR_TIMEOUT\<close> the connection woken is
  the one that the library gives for the session of \<open>app->sender\<close>; no case assigns
  that field, and the call is recorded with \<open>NULL\<close> while it is \<open>NULL\<close>.\<close>

definition handle :: "pn_codec \<Rightarrow> pn_event_t \<Rightarrow> world \<Rightarrow> (error + world \<times> bool) option" where
  "handle lib event w =
     (case ev_type event of
        PN_LISTENER_OPEN \<Rightarrow> Some (Inr (act (Stdout (''listening'' @ newline)) w, True))
      | PN_LISTENER_ACCEPT \<Rightarrow> Some (Inr (act (Listener_accept (ev_listener event)) w, True))
      | PN_CONNECTION_INIT \<Rightarrow>
          Some (Inr (act (Connection_set_container (ev_connection event)
                            (container_id (app w))) w, True))
      | PN_CONNECTION_BOUND \<Rightarrow>
          (let t = ev_transport event;
               w1 = act (Transport_require_auth t False) w;
               w2 = act (Sasl_allowed_mechs t ''ANONYMOUS'') w1
           in Some (Inr (act (Connection_open (ev_connection event)) w2, True)))
      | PN_CONNECTION_REMOTE_OPEN \<Rightarrow>
          Some (Inr (act (Connection_open (ev_connection event)) w, True))
      | PN_SESSION_REMOTE_OPEN \<Rightarrow>
          Some (Inr (act (Session_open (ev_session event)) w, True))
      | PN_TRANSPORT_CLOSED \<Rightarrow>
          (let w1 = check_condition event (ev_transport_condition event) w
           in Some (Inr (act (Listener_close (listener (app w1))) w1, True)))
      | PN_CONNECTION_REMOTE_CLOSE \<Rightarrow>
          (let w1 = check_condition event (ev_connection_remote_condition event) w
           in Some (Inr (act (Connection_close (ev_connection event)) w1, True)))
      | PN_SESSION_REMOTE_CLOSE \<Rightarrow>
          (let w1 = check_condition event (ev_session_remote_condition event) w
           in Some (Inr (act (Connection_close (ev_connection event)) w1, True)))
      | PN_LINK_REMOTE_CLOSE \<Rightarrow>
          (let w1 = check_condition event (ev_link_remote_condition event) w
           in Some (Inr (act (Connection_close (ev_connection event)) w1, True)))
      | PN_LINK_REMOTE_DETACH \<Rightarrow>
          (let w1 = check_condition event (ev_link_remote_condition event) w
           in Some (Inr (act (Connection_close (ev_connection event)) w1, True)))
      | PN_PROACTOR_TIMEOUT \<Rightarrow>
          Some (Inr (act (Connection_wake
                            (case sender (app w) of
                               None \<Rightarrow> None
                             | Some s \<Rightarrow> session_connection (link_session s))) w, True))
      | PN_LISTENER_CLOSE \<Rightarrow>
          Some (Inr (check_condition event (ev_listener_condition event) w, True))
      | PN_PROACTOR_INACTIVE \<Rightarrow> Some (Inr (w, False))
      | _ \<Rightarrow>
          (case ev_link event of
             Some l \<Rightarrow>
               if link_is_sender l then
                 (case handle_send lib l event w of
                    None \<Rightarrow> None
                  | Some (Inl x) \<Rightarrow> Some (Inl x)
                  | Some (Inr w1) \<Rightarrow> Some (Inr (w1, True)))
               else Some (Inr (handle_receive l event w, True))
           | None \<Rightarrow> Some (Inr (w, True))))"

section \<open>run\<close>

text \<open>
  \<open>pn_proactor_wait\<close> hands out a batch of events; while it waits the library does the
  input and output, so the credit balances of the links are what the library has
  made of them by then. A run is given the batches that the calls of
  \<open>pn_proactor_wait\<close> return, in order; when there is none left the call blocks.
\<close>

record pn_event_batch_t =
  batch_credit :: "nat \<Rightarrow> c_int"
  batch_events :: "pn_event_t list"

text \<open>The \<open>for\<close> loop of \<open>run\<close> over one batch; \<open>False\<close> when \<open>handle\<close> returned it.\<close>

fun dispatch :: "pn_codec \<Rightarrow> pn_event_t list \<Rightarrow> world \<Rightarrow> (error + world \<times> bool) option" where
  "dispatch lib [] w = Some (Inr (w, True))"
| "dispatch lib (e # es) w =
     (case handle lib e w of
        None \<Rightarrow> None
      | Some (Inl x) \<Rightarrow> Some (Inl x)
      | Some (Inr (w1, continue)) \<Rightarrow>
          if \<not> continue then Some (Inr (w1, False)) else dispatch lib es w1)"

datatype run_end = Returned | Waiting

fun run :: "pn_codec \<Rightarrow> pn_event_batch_t list \<Rightarrow> world \<Rightarrow> (error + world \<times> run_end) option" where
  "run lib [] w = Some (Inr (act (Proactor_wait (proactor (app w))) w, Waiting))"
| "run lib (events # rest) w =
     (let w1 = (act (Proactor_wait (proactor (app w))) w)\<lparr>link_credit := batch_credit events\<rparr>
      in case dispatch lib (batch_events events) w1 of
           None \<Rightarrow> None
         | Some (Inl x) \<Rightarrow> Some (Inl x)
         | Some (Inr (w2, continue)) \<Rightarrow>
             if \<not> continue then Some (Inr (w2, Returned))
             else run lib rest (act (Proactor_done (proactor (app w2))) w2))"

section \<open>Notions used in the statements\<close>

text \<open>Modelled from the spec: \<open>pn_message_encode\<close> of the library's message.c, which is
  not among the source files. The codec is "growable, reports overflow distinctly from
  other failures": the encoding of a message \<open>m\<close> takes \<open>need m\<close> bytes, a smaller
  buffer is an overflow, any other buffer receives the encoding.\<close>

definition codec_needing :: "(pn_message_t \<Rightarrow> nat) \<Rightarrow> pn_codec" where
  "codec_needing need =
     \<lparr>pn_message_encode = (\<lambda>m n. if n < need m then (PN_OVERFLOW, n) else (0, need m)),
      pn_error_text = (\<lambda>m. [])\<rparr>"

text \<open>The message that \<open>encode_message\<close> builds when the counter \<open>sent\<close> is \<open>k\<close>.\<close>

definition sequence_message :: "c_int \<Rightarrow> pn_message_t" where
  "sequence_message k = \<lparr>message_id = k, message_body = [(''sequence'', k)]\<rparr>"

text \<open>The size of the buffer that the encoding starts with: \<open>initial_size\<close> for the
  \<open>NULL\<close> buffer of a fresh \<open>app_data_t\<close>.\<close>

definition start_size :: "world \<Rightarrow> nat" where
  "start_size w =
     (if rw_start (message_buffer (app w)) then rw_size (message_buffer (app w)) else 128)"

text \<open>A buffer that has been allocated has room: \<open>encode_message\<close> never leaves one of
  size 0.\<close>

definition buffer_ok :: "world \<Rightarrow> bool" where
  "buffer_ok w = (rw_start (message_buffer (app w)) \<longrightarrow> 0 < rw_size (message_buffer (app w)))"

text \<open>The state in which \<open>main\<close> calls \<open>run\<close>: \<open>app\<close> is all zero but for the five
  values taken from the command line and the proactor and listener just created;
  \<open>exit_code\<close> is 0 and nothing has been printed.\<close>

definition main_state :: "string \<Rightarrow> string \<Rightarrow> string \<Rightarrow> string \<Rightarrow> c_int \<Rightarrow> world" where
  "main_state cid h p addr n =
     \<lparr>app = \<lparr>host = h, port = p, amqp_address = addr, container_id = cid, message_count = n,
             proactor = 8, listener = 9, message_buffer = \<lparr>rw_size = 0, rw_start = False\<rparr>,
             sent = 0, acknowledged = 0, sender = None, received = 0\<rparr>,
      exit_code = 0, link_credit = (\<lambda>l. 0), trace = []\<rparr>"

text \<open>Concrete objects for the examples: an endpoint without a failure condition, a
  session, a link and a delivery with given numbers, and an event of a given type that
  carries nothing else.\<close>

definition no_condition :: pn_condition_t where
  "no_condition = \<lparr>condition_is_set = False, condition_name = [], condition_description = []\<rparr>"

definition a_link :: "nat \<Rightarrow> bool \<Rightarrow> pn_link_t" where
  "a_link n snd_role =
     \<lparr>link_id = n, link_is_sender = snd_role,
      link_session = \<lparr>session_id = 5, session_connection = Some 7\<rparr>\<rparr>"

definition a_delivery :: "nat \<Rightarrow> pn_link_t \<Rightarrow> pn_delivery_t" where
  "a_delivery n l =
     \<lparr>dlv_id = n, dlv_link = l, dlv_readable = False, dlv_partial = False, dlv_pending = 0,
      dlv_remote_state = 0, dlv_recv = 0, dlv_decoded = None\<rparr>"

definition an_event :: "pn_event_type_t \<Rightarrow> pn_event_t" where
  "an_event t =
     \<lparr>ev_type = t, ev_listener = None, ev_transport = None, ev_connection = None,
      ev_session = None, ev_link = None, ev_delivery = a_delivery 0 (a_link 0 False),
      ev_transport_condition = no_condition, ev_connection_remote_condition = no_condition,
      ev_session_remote_condition = no_condition, ev_link_remote_condition = no_condition,
      ev_listener_condition = no_condition\<rparr>"

text \<open>A complete message arriving on the receiving link \<open>l\<close>: readable, not partial,
  \<open>n\<close> bytes long, with what decoding it gives.\<close>

definition message_arrives :: "nat \<Rightarrow> pn_link_t \<Rightarrow> nat \<Rightarrow> string option \<Rightarrow> pn_event_t" where
  "message_arrives k l n body =
     (an_event PN_DELIVERY)
       \<lparr>ev_connection := session_connection (link_session l), ev_link := Some l,
        ev_delivery := (a_delivery k l)
          \<lparr>dlv_readable := True, dlv_pending := n, dlv_recv := int n, dlv_decoded := body\<rparr>\<rparr>"


text \<open>What \<open>n\<close> passes through the sending loop do on the link \<open>k\<close>, starting with
  the counter \<open>sent\<close> at \<open>s\<close>, when the encoding of a message \<open>m\<close> takes \<open>need m\<close>
  bytes: each pass makes a delivery with its tag, sends the encoded message and advances
  the link. The statements compare the loop of the source with this list.\<close>

fun send_actions :: "nat \<Rightarrow> (pn_message_t \<Rightarrow> nat) \<Rightarrow> c_int \<Rightarrow> nat \<Rightarrow> action list" where
  "send_actions k need s 0 = []"
| "send_actions k need s (Suc n) =
     [Delivery k (pn_dtag (s + 1)),
      Link_send k \<lparr>bytes_size = need (sequence_message (s + 1)),
                   bytes_message = sequence_message (s + 1)\<rparr>,
      Link_advance k] @ send_actions k need (s + 1) n"

text \<open>The delivery tags and the messages sent that a list of actions holds, in order.\<close>

definition tag_of :: "action \<Rightarrow> 8 word list list" where
  "tag_of a = (case a of Delivery k t \<Rightarrow> [t] | _ \<Rightarrow> [])"

definition delivery_tags :: "action list \<Rightarrow> 8 word list list" where
  "delivery_tags as = concat (map tag_of as)"

definition message_of :: "action \<Rightarrow> pn_message_t list" where
  "message_of a = (case a of Link_send k b \<Rightarrow> [bytes_message b] | _ \<Rightarrow> [])"

definition sent_messages :: "action list \<Rightarrow> pn_message_t list" where
  "sent_messages as = concat (map message_of as)"

text \<open>The peer grants credit: a flow event on the sending link \<open>l\<close>.\<close>

definition credit_arrives :: "pn_link_t \<Rightarrow> pn_event_t" where
  "credit_arrives l =
     (an_event PN_LINK_FLOW)
       \<lparr>ev_connection := session_connection (link_session l), ev_link := Some l\<rparr>"

text \<open>The actions that belong to the opening and closing of endpoints, the only ones
  that \<open>handle\<close> makes outside the sending loop, the acknowledgement of a sent message
  and the receipt of a complete message.\<close>

fun plain :: "action \<Rightarrow> bool" where
  "plain (Stdout s) = (s = ''listening'' @ newline)"
| "plain (Stderr s) = True"
| "plain (Connection_close c) = True"
| "plain (Connection_open c) = True"
| "plain (Connection_set_container c s) = True"
| "plain (Connection_wake c) = True"
| "plain (Transport_require_auth t b) = True"
| "plain (Sasl_allowed_mechs t s) = True"
| "plain (Session_open s) = True"
| "plain (Listener_accept l) = True"
| "plain (Listener_close l) = True"
| "plain (Terminus_set_address k s) = True"
| "plain (Link_open k) = True"
| "plain (Link_flow k n) = True"
| "plain a = False"

text \<open>The events of a list of batches, in the order in which \<open>run\<close> meets them, and
  the events that do not end the loop.\<close>

definition events_of :: "pn_event_batch_t list \<Rightarrow> pn_event_t list" where
  "events_of bs = concat (map batch_events bs)"

definition not_inactive :: "pn_event_t \<Rightarrow> bool" where
  "not_inactive e = (ev_type e \<noteq> PN_PROACTOR_INACTIVE)"

text \<open>The actions of the branch that ends the receiving: closing a link or a session.\<close>

fun closes_link :: "action \<Rightarrow> bool" where
  "closes_link (Link_close k) = True"
| "closes_link (Session_close s) = True"
| "closes_link a = False"

text \<open>The calls that \<open>run\<close> itself makes, and the actions of \<open>decode_message\<close>.\<close>

fun proactor_call :: "action \<Rightarrow> bool" where
  "proactor_call (Proactor_wait p) = True"
| "proactor_call (Proactor_done p) = True"
| "proactor_call a = False"

definition proactor_calls :: "action list \<Rightarrow> action list" where
  "proactor_calls as = filter proactor_call as"

fun decoding :: "action \<Rightarrow> bool" where
  "decoding (Link_recv k n) = True"
| "decoding (Stdout s) = True"
| "decoding a = False"

text \<open>A batch with one complete message for the receiving link 3, whose credit the
  library reports as 500.\<close>

definition one_message :: pn_event_batch_t where
  "one_message =
     \<lparr>batch_credit = (\<lambda>l. 500),
      batch_events = [message_arrives 9 (a_link 3 False) 20 (Some ''{sequence=1}'')]\<rparr>"


text \<open>The two kinds of delivery event that move a counter: a complete message arriving
  on a receiving link, and the peer's acceptance of a message sent on a sending link.\<close>

definition arrival :: "pn_event_t \<Rightarrow> bool" where
  "arrival e =
     (ev_type e = PN_DELIVERY
      \<and> (case ev_link e of None \<Rightarrow> False | Some l \<Rightarrow> \<not> link_is_sender l)
      \<and> dlv_readable (ev_delivery e) \<and> \<not> dlv_partial (ev_delivery e))"

definition acceptance :: "pn_event_t \<Rightarrow> bool" where
  "acceptance e =
     (ev_type e = PN_DELIVERY
      \<and> (case ev_link e of None \<Rightarrow> False | Some l \<Rightarrow> link_is_sender l)
      \<and> dlv_remote_state (ev_delivery e) = PN_ACCEPTED)"

text \<open>The events of a list that the loop gets to: all up to and including the first
  \<open>PN_PROACTOR_INACTIVE\<close>.\<close>

fun handled :: "pn_event_t list \<Rightarrow> pn_event_t list" where
  "handled [] = []"
| "handled (e # es) = (if not_inactive e then e # handled es else [e])"

text \<open>Counting actions: deliveries settled, deliveries accepted, links closed and sessions
  closed.\<close>

fun is_settle :: "action \<Rightarrow> bool" where
  "is_settle (Delivery_settle d) = True"
| "is_settle a = False"

fun is_accept :: "action \<Rightarrow> bool" where
  "is_accept (Delivery_update d s) = (s = PN_ACCEPTED)"
| "is_accept a = False"

fun is_link_close :: "action \<Rightarrow> bool" where
  "is_link_close (Link_close k) = True"
| "is_link_close a = False"

fun is_session_close :: "action \<Rightarrow> bool" where
  "is_session_close (Session_close s) = True"
| "is_session_close a = False"

definition count_of :: "(action \<Rightarrow> bool) \<Rightarrow> action list \<Rightarrow> nat" where
  "count_of P as = length (filter P as)"

text \<open>The result of a call that has returned, if it has.\<close>

definition returned :: "(error + 'a) option \<Rightarrow> 'a option" where
  "returned r = (case r of Some (Inr x) \<Rightarrow> Some x | _ \<Rightarrow> None)"

text \<open>The peer accepts the delivery \<open>k\<close> that was sent on the sending link \<open>l\<close>.\<close>

definition acceptance_arrives :: "nat \<Rightarrow> pn_link_t \<Rightarrow> pn_event_t" where
  "acceptance_arrives k l =
     (an_event PN_DELIVERY)
       \<lparr>ev_connection := session_connection (link_session l), ev_link := Some l,
        ev_delivery := (a_delivery k l)\<lparr>dlv_remote_state := PN_ACCEPTED\<rparr>\<rparr>"

text \<open>Three acceptances in one batch.\<close>

definition three_acceptances :: pn_event_batch_t where
  "three_acceptances =
     \<lparr>batch_credit = (\<lambda>l. 0),
      batch_events = [acceptance_arrives 11 (a_link 4 True), acceptance_arrives 12 (a_link 4 True),
                      acceptance_arrives 13 (a_link 4 True)]\<rparr>"

text \<open>The peer attaches a link.\<close>

definition link_opens :: "pn_link_t \<Rightarrow> pn_event_t" where
  "link_opens l =
     (an_event PN_LINK_REMOTE_OPEN)
       \<lparr>ev_connection := session_connection (link_session l), ev_link := Some l\<rparr>"

text \<open>Two receiving links are attached, and a complete message arrives on each.\<close>

definition two_links_deliver :: pn_event_batch_t where
  "two_links_deliver =
     \<lparr>batch_credit = (\<lambda>l. 0),
      batch_events = [link_opens (a_link 3 False), link_opens (a_link 6 False),
                      message_arrives 9 (a_link 3 False) 20 (Some ''{sequence=1}''),
                      message_arrives 10 (a_link 6 False) 20 (Some ''{sequence=1}'')]\<rparr>"

text \<open>Five complete messages arrive on the receiving link 3, as in the second scenario
  of the spec.\<close>

definition five_messages :: pn_event_batch_t where
  "five_messages =
     \<lparr>batch_credit = (\<lambda>l. 5),
      batch_events = [message_arrives 21 (a_link 3 False) 20 (Some ''{sequence=1}''),
                      message_arrives 22 (a_link 3 False) 20 (Some ''{sequence=2}''),
                      message_arrives 23 (a_link 3 False) 20 (Some ''{sequence=3}''),
                      message_arrives 24 (a_link 3 False) 20 (Some ''{sequence=4}''),
                      message_arrives 25 (a_link 3 False) 20 (Some ''{sequence=5}'')]\<rparr>"

text \<open>The peer grants the sending link 4 a credit of 10.\<close>

definition credit_granted :: pn_event_batch_t where
  "credit_granted =
     \<lparr>batch_credit = (\<lambda>l. 10), batch_events = [credit_arrives (a_link 4 True)]\<rparr>"

section \<open>The encoding loop\<close>


lemma encode_loop_needing:
  "0 < c \<Longrightarrow> \<exists>d. encode_loop (codec_needing need) m c c = Some (0, c * 2 ^ d, need m)
      \<and> (\<forall>j<d. c * 2 ^ j < need m) \<and> need m \<le> c * 2 ^ d"
proof (induction "need m - c" arbitrary: c rule: less_induct)
  case less
  show ?case
  proof (cases "c < need m")
    case False
    then have "encode_loop (codec_needing need) m c c = Some (0, c * 2 ^ 0, need m)"
      by (subst encode_loop.simps) (simp add: codec_needing_def PN_OVERFLOW_def)
    with False show ?thesis by (intro exI [of _ 0]) simp
  next
    case True
    with less.prems have "need m - c * 2 < need m - c" "0 < c * 2" by simp_all
    from less.hyps [OF this] obtain d where
      d: "encode_loop (codec_needing need) m (c * 2) (c * 2) = Some (0, c * 2 * 2 ^ d, need m)"
         "\<forall>j<d. c * 2 * 2 ^ j < need m" "need m \<le> c * 2 * 2 ^ d"
      by blast
    have "encode_loop (codec_needing need) m c c = encode_loop (codec_needing need) m (c * 2) (c * 2)"
      using True by (subst encode_loop.simps) (simp add: codec_needing_def)
    with d(1) have "encode_loop (codec_needing need) m c c = Some (0, c * 2 ^ Suc d, need m)"
      by (simp add: mult.assoc)
    moreover have "\<forall>j<Suc d. c * 2 ^ j < need m"
    proof (intro allI impI)
      fix j assume "j < Suc d"
      show "c * 2 ^ j < need m"
      proof (cases j)
        case 0 with True show ?thesis by simp
      next
        case (Suc k)
        with \<open>j < Suc d\<close> d(2) show ?thesis by (simp add: mult.assoc)
      qed
    qed
    moreover have "need m \<le> c * 2 ^ Suc d" using d(3) by (simp add: mult.assoc)
    ultimately show ?thesis by blast
  qed
qed




section \<open>Failure conditions\<close>





section \<open>Receiving\<close>

lemma decode_message_fields [simp]:
  "app (decode_message d w) = app w"
  "exit_code (decode_message d w) = exit_code w"
  "link_credit (decode_message d w) = link_credit w"
  by (simp_all add: decode_message_def act_def Let_def split: option.splits)

lemma handle_receive_complete:
  assumes "ev_type e = PN_DELIVERY" "dlv_readable (ev_delivery e)" "\<not> dlv_partial (ev_delivery e)"
  shows "handle_receive l e w =
    (let d = ev_delivery e; k = link_id (dlv_link d); c = link_credit w k - 1;
         r = received (app w); n = message_count (app w) in
     \<lparr>app = (app w)\<lparr>received := (if n = 0 then r else r + 1)\<rparr>,
      exit_code = exit_code w,
      link_credit = (link_credit w)(k := (if n = 0 \<and> sint c < 500 then 1000 else c)),
      trace = trace (decode_message d w)
        @ [Delivery_update (dlv_id d) PN_ACCEPTED, Link_advance k, Delivery_settle (dlv_id d)]
        @ (if n = 0 then (if sint c < 500 then [Link_flow k (1000 - c)] else [])
           else if sint n \<le> sint (r + 1)
           then [Stdout (printf_d (r + 1) @ '' messages received'' @ newline),
                 Link_close k, Session_close (session_id (link_session (dlv_link d))),
                 Connection_close (session_connection (link_session (dlv_link d)))]
           else [])\<rparr>)"
  using assms
  by (simp add: handle_receive_def Let_def act_def pn_link_advance_def pn_link_flow_def
      pn_link_credit_def BATCH_def)


lemma decode_message_undecodable:
  "dlv_decoded d = None \<Longrightarrow>
   trace (decode_message d w) =
     trace w @ (if dlv_pending d < 1024 then [Link_recv (link_id (dlv_link d)) 1024] else [])"
  by (simp add: decode_message_def act_def Let_def MAX_SIZE_def)


text \<open>
  Claim C5. With \<open>message_count = 0\<close>, after a complete delivery has been accepted,
  advanced and settled, the handler reads the credit \<open>c\<close> of the delivery's link (the
  balance after the advance). Exactly when \<open>c\<close> is below 500, half of \<open>BATCH\<close>, it
  grants \<open>1000 - c\<close> more, which leaves the link with a credit of 1000; otherwise it
  grants nothing and the credit stays \<open>c\<close>.
\<close>

theorem unbounded_replenish:
  assumes "message_count (app w) = 0" "ev_type e = PN_DELIVERY"
    and "dlv_readable (ev_delivery e)" "\<not> dlv_partial (ev_delivery e)"
  shows "let d = ev_delivery e; k = link_id (dlv_link d); c = link_credit w k - 1;
             w' = handle_receive l e w
         in (sint c < 500 \<longrightarrow>
               trace w' = trace (decode_message d w)
                 @ [Delivery_update (dlv_id d) PN_ACCEPTED, Link_advance k,
                    Delivery_settle (dlv_id d), Link_flow k (1000 - c)]
               \<and> link_credit w' k = 1000)
          \<and> (500 \<le> sint c \<longrightarrow>
               trace w' = trace (decode_message d w)
                 @ [Delivery_update (dlv_id d) PN_ACCEPTED, Link_advance k,
                    Delivery_settle (dlv_id d)]
               \<and> link_credit w' k = c)"
  using assms by (simp add: handle_receive_complete Let_def)

theorem unbounded_replenish_witness:
  "message_count (app ((main_state ''A'' [] ''amqp'' ''example'' 0)\<lparr>link_credit := (\<lambda>l. 500)\<rparr>)) = 0
   \<and> ev_type (message_arrives 9 (a_link 3 False) 20 (Some ''{sequence=1}'')) = PN_DELIVERY
   \<and> sint (499 :: c_int) < 500
   \<and> trace (handle_receive (a_link 3 False) (message_arrives 9 (a_link 3 False) 20 (Some ''{sequence=1}''))
        ((main_state ''A'' [] ''amqp'' ''example'' 0)\<lparr>link_credit := (\<lambda>l. 500)\<rparr>)) =
       [Link_recv 3 1024, Stdout (''{sequence=1}'' @ newline), Delivery_update 9 PN_ACCEPTED,
        Link_advance 3, Delivery_settle 9, Link_flow 3 501]
   \<and> link_credit (handle_receive (a_link 3 False) (message_arrives 9 (a_link 3 False) 20 (Some ''{sequence=1}''))
        ((main_state ''A'' [] ''amqp'' ''example'' 0)\<lparr>link_credit := (\<lambda>l. 500)\<rparr>)) 3 = 1000
   \<and> (500 :: int) \<le> sint (500 :: c_int)
   \<and> trace (handle_receive (a_link 3 False) (message_arrives 9 (a_link 3 False) 20 (Some ''{sequence=1}''))
        ((main_state ''A'' [] ''amqp'' ''example'' 0)\<lparr>link_credit := (\<lambda>l. 501)\<rparr>)) =
       [Link_recv 3 1024, Stdout (''{sequence=1}'' @ newline), Delivery_update 9 PN_ACCEPTED,
        Link_advance 3, Delivery_settle 9]
   \<and> link_credit (handle_receive (a_link 3 False) (message_arrives 9 (a_link 3 False) 20 (Some ''{sequence=1}''))
        ((main_state ''A'' [] ''amqp'' ''example'' 0)\<lparr>link_credit := (\<lambda>l. 501)\<rparr>)) 3 = 500"
proof -
  let ?l = "a_link 3 False"
  let ?e = "message_arrives 9 ?l 20 (Some ''{sequence=1}'')"
  let ?w = "(main_state ''A'' [] ''amqp'' ''example'' 0)\<lparr>link_credit := (\<lambda>l. 500)\<rparr>"
  let ?v = "(main_state ''A'' [] ''amqp'' ''example'' 0)\<lparr>link_credit := (\<lambda>l. 501)\<rparr>"
  have e: "ev_type ?e = PN_DELIVERY" "dlv_readable (ev_delivery ?e)" "\<not> dlv_partial (ev_delivery ?e)"
    by (simp_all add: message_arrives_def an_event_def a_delivery_def)
  have w: "message_count (app ?w) = 0" and v: "message_count (app ?v) = 0"
    by (simp_all add: main_state_def)
  have d: "trace (decode_message (ev_delivery ?e) ?w) = [Link_recv 3 1024, Stdout (''{sequence=1}'' @ newline)]"
    "trace (decode_message (ev_delivery ?e) ?v) = [Link_recv 3 1024, Stdout (''{sequence=1}'' @ newline)]"
    by (simp_all add: decode_message_def message_arrives_def an_event_def a_delivery_def a_link_def
        main_state_def act_def MAX_SIZE_def)
  have k: "link_id (dlv_link (ev_delivery ?e)) = 3" "dlv_id (ev_delivery ?e) = 9"
    by (simp_all add: message_arrives_def an_event_def a_delivery_def a_link_def)
  from unbounded_replenish [OF w e, of ?l]
  have "trace (handle_receive ?l ?e ?w) =
       [Link_recv 3 1024, Stdout (''{sequence=1}'' @ newline), Delivery_update 9 PN_ACCEPTED,
        Link_advance 3, Delivery_settle 9, Link_flow 3 501]
     \<and> link_credit (handle_receive ?l ?e ?w) 3 = 1000"
    by (simp add: Let_def d k)
  moreover from unbounded_replenish [OF v e, of ?l]
  have "trace (handle_receive ?l ?e ?v) =
       [Link_recv 3 1024, Stdout (''{sequence=1}'' @ newline), Delivery_update 9 PN_ACCEPTED,
        Link_advance 3, Delivery_settle 9]
     \<and> link_credit (handle_receive ?l ?e ?v) 3 = 500"
    by (simp add: Let_def d k)
  ultimately show ?thesis using w e by simp
qed


text \<open>
  Claim C8, as the code has it. A complete delivery whose body does not decode is
  handled like any other: nothing is printed for it, it is accepted, advanced and
  settled, it counts as received when \<open>message_count\<close> is not 0, and \<open>handle\<close>
  returns \<open>True\<close>, so the loop goes on with the next event.
\<close>

theorem undecodable_delivery_accepted:
  assumes "ev_type e = PN_DELIVERY" "dlv_readable (ev_delivery e)" "\<not> dlv_partial (ev_delivery e)"
    and "dlv_decoded (ev_delivery e) = None"
  shows "let d = ev_delivery e; k = link_id (dlv_link d); c = link_credit w k - 1;
             r = received (app w); n = message_count (app w); w' = handle_receive l e w
         in trace w' = trace w
              @ (if dlv_pending d < 1024 then [Link_recv k 1024] else [])
              @ [Delivery_update (dlv_id d) PN_ACCEPTED, Link_advance k, Delivery_settle (dlv_id d)]
              @ (if n = 0 then (if sint c < 500 then [Link_flow k (1000 - c)] else [])
                 else if sint n \<le> sint (r + 1)
                 then [Stdout (printf_d (r + 1) @ '' messages received'' @ newline),
                       Link_close k, Session_close (session_id (link_session (dlv_link d))),
                       Connection_close (session_connection (link_session (dlv_link d)))]
                 else [])
          \<and> received (app w') = (if n = 0 then r else r + 1)
          \<and> exit_code w' = exit_code w
          \<and> (ev_link e = Some l \<and> \<not> link_is_sender l \<longrightarrow>
                handle lib e w = Some (Inr (w', True)))"
  using assms
  by (simp add: handle_receive_complete Let_def decode_message_undecodable handle_def)

theorem undecodable_delivery_counterexample:
  "trace (handle_receive (a_link 3 False) (message_arrives 9 (a_link 3 False) 20 None)
            (main_state ''A'' [] ''amqp'' ''example'' 5)) =
     [Link_recv 3 1024, Delivery_update 9 PN_ACCEPTED, Link_advance 3, Delivery_settle 9]
   \<and> received (app (handle_receive (a_link 3 False) (message_arrives 9 (a_link 3 False) 20 None)
            (main_state ''A'' [] ''amqp'' ''example'' 5))) = 1"
  by (simp add: handle_receive_def decode_message_def message_arrives_def an_event_def
      a_delivery_def a_link_def main_state_def act_def MAX_SIZE_def Let_def pn_link_advance_def)

theorem undecodable_delivery_accepted_witness:
  "ev_type (message_arrives 9 (a_link 3 False) 20 None) = PN_DELIVERY
   \<and> dlv_readable (ev_delivery (message_arrives 9 (a_link 3 False) 20 None))
   \<and> \<not> dlv_partial (ev_delivery (message_arrives 9 (a_link 3 False) 20 None))
   \<and> dlv_decoded (ev_delivery (message_arrives 9 (a_link 3 False) 20 None)) = None
   \<and> ev_link (message_arrives 9 (a_link 3 False) 20 None) = Some (a_link 3 False)
   \<and> \<not> link_is_sender (a_link 3 False)
   \<and> handle (codec_needing (\<lambda>m. 40)) (message_arrives 9 (a_link 3 False) 20 None)
        (main_state ''A'' [] ''amqp'' ''example'' 5) =
       Some (Inr (handle_receive (a_link 3 False) (message_arrives 9 (a_link 3 False) 20 None)
                    (main_state ''A'' [] ''amqp'' ''example'' 5), True))
   \<and> trace (handle_receive (a_link 3 False) (message_arrives 9 (a_link 3 False) 20 None)
        (main_state ''A'' [] ''amqp'' ''example'' 5)) =
       [Link_recv 3 1024, Delivery_update 9 PN_ACCEPTED, Link_advance 3, Delivery_settle 9]
   \<and> received (app (handle_receive (a_link 3 False) (message_arrives 9 (a_link 3 False) 20 None)
        (main_state ''A'' [] ''amqp'' ''example'' 5))) = 1"
proof -
  let ?l = "a_link 3 False"
  let ?e = "message_arrives 9 ?l 20 None"
  let ?w = "main_state ''A'' [] ''amqp'' ''example'' 5"
  have e: "ev_type ?e = PN_DELIVERY" "dlv_readable (ev_delivery ?e)" "\<not> dlv_partial (ev_delivery ?e)"
    "dlv_decoded (ev_delivery ?e) = None"
    by (simp_all add: message_arrives_def an_event_def a_delivery_def)
  have l: "ev_link ?e = Some ?l" "\<not> link_is_sender ?l"
    by (simp_all add: message_arrives_def an_event_def a_link_def)
  have k: "link_id (dlv_link (ev_delivery ?e)) = 3" "dlv_id (ev_delivery ?e) = 9"
    "dlv_pending (ev_delivery ?e) = 20"
    by (simp_all add: message_arrives_def an_event_def a_delivery_def a_link_def)
  have w: "message_count (app ?w) = 5" "received (app ?w) = 0" "trace ?w = []"
    by (simp_all add: main_state_def)
  from undecodable_delivery_accepted [OF e, of ?w ?l "codec_needing (\<lambda>m. 40)"] l
  have "handle (codec_needing (\<lambda>m. 40)) ?e ?w = Some (Inr (handle_receive ?l ?e ?w, True))
    \<and> trace (handle_receive ?l ?e ?w) =
       [Link_recv 3 1024, Delivery_update 9 PN_ACCEPTED, Link_advance 3, Delivery_settle 9]
    \<and> received (app (handle_receive ?l ?e ?w)) = 1"
    by (simp add: Let_def k w)
  with e l show ?thesis by simp
qed

section \<open>Sending\<close>

lemma sint_succ:
  fixes x y :: c_int
  assumes "sint x < sint y"
  shows "sint (x + 1) = sint x + 1"
proof -
  have "sint y \<le> 2 ^ 31 - 1"
    using sint_lt [of y] by simp
  with assms have "sint x + 1 < 2 ^ 31" "- (2 ^ 31) \<le> sint x + 1"
    using sint_ge [of x] by simp_all
  then show ?thesis
    by (simp add: sint_word_ariths signed_take_bit_int_eq_self)
qed

lemma sint_pred:
  fixes x :: c_int
  assumes "0 < sint x"
  shows "sint (x - 1) = sint x - 1"
proof -
  have "sint x - 1 < 2 ^ 31" "- (2 ^ 31) \<le> sint x - 1"
    using sint_lt [of x] assms by simp_all
  then show ?thesis
    by (simp add: sint_word_ariths signed_take_bit_int_eq_self)
qed

lemma encode_message_needing:
  assumes "buffer_ok w"
  shows "\<exists>b. encode_message (codec_needing need) w =
           Some (Inr (w\<lparr>app := (app w)\<lparr>message_buffer := b\<rparr>\<rparr>,
                      \<lparr>bytes_size = need (sequence_message (sent (app w))),
                       bytes_message = sequence_message (sent (app w))\<rparr>))
         \<and> rw_start b \<and> 0 < rw_size b"
proof -
  let ?m = "sequence_message (sent (app w))"
  have pos: "0 < start_size w"
    using assms by (simp add: start_size_def buffer_ok_def)
  from encode_loop_needing [OF pos, of need ?m] obtain d where
    d: "encode_loop (codec_needing need) ?m (start_size w) (start_size w)
          = Some (0, start_size w * 2 ^ d, need ?m)"
    by blast
  have size: "rw_size (if \<not> rw_start (message_buffer (app w))
                 then \<lparr>rw_size = initial_size, rw_start = True\<rparr>
                 else message_buffer (app w)) = start_size w"
    by (simp add: start_size_def initial_size_def)
  have "encode_message (codec_needing need) w =
      Some (Inr (w\<lparr>app := (app w)\<lparr>message_buffer := \<lparr>rw_size = start_size w * 2 ^ d, rw_start = True\<rparr>\<rparr>\<rparr>,
                 \<lparr>bytes_size = need ?m, bytes_message = ?m\<rparr>))"
    unfolding encode_message_def Let_def size
    by (simp add: d [unfolded sequence_message_def] sequence_message_def)
  with pos show ?thesis by auto
qed

lemma send_loop_needing:
  assumes "buffer_ok w"
    and "n = nat (min (sint (link_credit w (link_id l)))
                      (sint (message_count (app w)) - sint (sent (app w))))"
  shows "\<exists>b. send_loop (codec_needing need) l w =
           Some (Inr (w\<lparr>app := (app w)\<lparr>sent := sent (app w) + of_nat n, message_buffer := b\<rparr>,
                        link_credit := (link_credit w)
                          (link_id l := link_credit w (link_id l) - of_nat n),
                        trace := trace w @ send_actions (link_id l) need (sent (app w)) n\<rparr>))
         \<and> (rw_start b \<longrightarrow> 0 < rw_size b)"
  using assms
proof (induction n arbitrary: w)
  case 0
  then have stop: "\<not> (0 < sint (pn_link_credit l w)
      \<and> sint (sent (app w)) < sint (message_count (app w)))"
    by (auto simp: pn_link_credit_def)
  have "send_loop (codec_needing need) l w = Some (Inr w)"
    by (subst send_loop.simps) (use stop in \<open>simp only: if_False\<close>)
  moreover have "w = w\<lparr>app := (app w)\<lparr>sent := sent (app w) + of_nat 0,
                            message_buffer := message_buffer (app w)\<rparr>,
                        link_credit := (link_credit w)
                          (link_id l := link_credit w (link_id l) - of_nat 0),
                        trace := trace w @ send_actions (link_id l) need (sent (app w)) 0\<rparr>"
    by simp
  ultimately show ?case
    using "0.prems"(1) unfolding buffer_ok_def by metis
next
  case (Suc n)
  let ?k = "link_id l"
  let ?c = "link_credit w ?k"
  let ?s = "sent (app w)"
  from Suc.prems(2) have go: "0 < sint ?c" "sint ?s < sint (message_count (app w))"
    by linarith+
  let ?w1 = "w\<lparr>app := (app w)\<lparr>sent := ?s + 1\<rparr>\<rparr>"
  let ?w2 = "act (Delivery ?k (pn_dtag (sent (app ?w1)))) ?w1"
  have ok2: "buffer_ok ?w2"
    using Suc.prems(1) by (simp add: buffer_ok_def act_def)
  from encode_message_needing [OF ok2, of need] obtain b where
    enc: "encode_message (codec_needing need) ?w2 =
           Some (Inr (?w2\<lparr>app := (app ?w2)\<lparr>message_buffer := b\<rparr>\<rparr>,
                      \<lparr>bytes_size = need (sequence_message (sent (app ?w2))),
                       bytes_message = sequence_message (sent (app ?w2))\<rparr>))"
      and b: "rw_start b" "0 < rw_size b"
    by blast
  let ?w3 = "?w2\<lparr>app := (app ?w2)\<lparr>message_buffer := b\<rparr>\<rparr>"
  let ?msgbuf = "\<lparr>bytes_size = need (sequence_message (sent (app ?w2))),
                       bytes_message = sequence_message (sent (app ?w2))\<rparr>"
  let ?w4 = "pn_link_advance l (act (Link_send ?k ?msgbuf) ?w3)"
  have unfold: "send_loop (codec_needing need) l w = send_loop (codec_needing need) l ?w4"
    by (subst send_loop.simps) (use go enc in \<open>simp add: pn_link_credit_def Let_def\<close>)
  have ok4: "buffer_ok ?w4"
    using b by (simp add: buffer_ok_def act_def pn_link_advance_def)
  have s1: "sint (?s + 1) = sint ?s + 1"
    by (rule sint_succ [OF go(2)])
  have c1: "sint (?c - 1) = sint ?c - 1"
    by (rule sint_pred [OF go(1)])
  have n4: "n = nat (min (sint (link_credit ?w4 ?k))
                      (sint (message_count (app ?w4)) - sint (sent (app ?w4))))"
    using Suc.prems(2) by (simp add: act_def pn_link_advance_def s1 c1)
  from Suc.IH [OF ok4 n4] obtain b' where
    rec: "send_loop (codec_needing need) l ?w4 =
           Some (Inr (?w4\<lparr>app := (app ?w4)\<lparr>sent := sent (app ?w4) + of_nat n, message_buffer := b'\<rparr>,
                        link_credit := (link_credit ?w4)
                          (?k := link_credit ?w4 ?k - of_nat n),
                        trace := trace ?w4 @ send_actions ?k need (sent (app ?w4)) n\<rparr>))"
      and b': "rw_start b' \<longrightarrow> 0 < rw_size b'"
    by blast
  have "?w4\<lparr>app := (app ?w4)\<lparr>sent := sent (app ?w4) + of_nat n, message_buffer := b'\<rparr>,
                        link_credit := (link_credit ?w4)
                          (?k := link_credit ?w4 ?k - of_nat n),
                        trace := trace ?w4 @ send_actions ?k need (sent (app ?w4)) n\<rparr>
      = w\<lparr>app := (app w)\<lparr>sent := ?s + of_nat (Suc n), message_buffer := b'\<rparr>,
                        link_credit := (link_credit w)
                          (?k := ?c - of_nat (Suc n)),
                        trace := trace w @ send_actions ?k need ?s (Suc n)\<rparr>"
    by (simp add: act_def pn_link_advance_def add.assoc diff_diff_eq)
  with unfold rec b' show ?case by metis
qed


lemma sint_add_nat:
  fixes x y :: c_int
  shows "sint x + int n \<le> sint y \<Longrightarrow> sint (x + of_nat n) = sint x + int n"
proof (induction n)
  case 0
  then show ?case by simp
next
  case (Suc n)
  then have ih: "sint (x + of_nat n) = sint x + int n" by simp
  with Suc.prems have lt: "sint (x + of_nat n) < sint y" by simp
  have "sint (x + of_nat (Suc n)) = sint ((x + of_nat n) + 1)"
    by (simp add: ac_simps)
  also have "\<dots> = sint (x + of_nat n) + 1"
    by (rule sint_succ [OF lt])
  finally show ?case using ih by simp
qed


lemma delivery_tags_append [simp]:
  "delivery_tags (xs @ ys) = delivery_tags xs @ delivery_tags ys"
  by (simp add: delivery_tags_def)

lemma sent_messages_append [simp]:
  "sent_messages (xs @ ys) = sent_messages xs @ sent_messages ys"
  by (simp add: sent_messages_def)

lemma delivery_tags_send_actions:
  "delivery_tags (send_actions k need s n) = map (\<lambda>i. pn_dtag (s + 1 + of_nat i)) [0..<n]"
proof (induction n arbitrary: s)
  case 0
  then show ?case by (simp add: delivery_tags_def)
next
  case (Suc n)
  have "delivery_tags (send_actions k need s (Suc n))
      = pn_dtag (s + 1) # delivery_tags (send_actions k need (s + 1) n)"
    by (simp add: delivery_tags_def tag_of_def)
  also have "\<dots> = pn_dtag (s + 1) # map (\<lambda>i. pn_dtag (s + 1 + 1 + of_nat i)) [0..<n]"
    by (simp only: Suc.IH)
  also have "\<dots> = map (\<lambda>i. pn_dtag (s + 1 + of_nat i)) [0..<Suc n]"
    by (simp add: map_upt_Suc add.assoc del: upt_Suc)
  finally show ?case .
qed

lemma sent_messages_send_actions:
  "sent_messages (send_actions k need s n)
     = map (\<lambda>i. sequence_message (s + 1 + of_nat i)) [0..<n]"
proof (induction n arbitrary: s)
  case 0
  then show ?case by (simp add: sent_messages_def)
next
  case (Suc n)
  have "sent_messages (send_actions k need s (Suc n))
      = sequence_message (s + 1) # sent_messages (send_actions k need (s + 1) n)"
    by (simp add: sent_messages_def message_of_def)
  also have "\<dots> = sequence_message (s + 1)
        # map (\<lambda>i. sequence_message (s + 1 + 1 + of_nat i)) [0..<n]"
    by (simp only: Suc.IH)
  also have "\<dots> = map (\<lambda>i. sequence_message (s + 1 + of_nat i)) [0..<Suc n]"
    by (simp add: map_upt_Suc add.assoc del: upt_Suc)
  finally show ?case .
qed

lemma pn_dtag_values: "pn_dtag 1 = [1, 0, 0, 0]" "pn_dtag 2 = [2, 0, 0, 0]" "pn_dtag 3 = [3, 0, 0, 0]"
  "pn_dtag 0 = [0, 0, 0, 0]"
  by (simp_all add: pn_dtag_def drop_bit_eq_div)

lemma pn_dtag_inject:
  assumes "pn_dtag x = pn_dtag y"
  shows "x = y"
proof (rule bit_word_eqI)
  fix n :: nat
  assume n: "n < LENGTH(32)"
  from assms have bytes:
    "(ucast (drop_bit (8 * i) x) :: 8 word) = ucast (drop_bit (8 * i) y)" if "i \<in> {0, 1, 2, 3}" for i
    using that by (auto simp: pn_dtag_def)
  have i: "n div 8 \<in> {0, 1, 2, 3}"
    using n by auto
  have "bit (ucast (drop_bit (8 * (n div 8)) x) :: 8 word) (n mod 8)
      = bit (ucast (drop_bit (8 * (n div 8)) y) :: 8 word) (n mod 8)"
    by (simp only: bytes [OF i])
  then show "bit x n = bit y n"
    by (simp add: bit_ucast_iff bit_drop_bit_eq)
qed





section \<open>What one event does\<close>

lemma check_condition_eq:
  "check_condition e c w =
     w\<lparr>trace := trace w @
          (if condition_is_set c
           then [Stderr (pn_event_type_name (ev_type e) @ '': '' @ condition_name c @ '': ''
                          @ condition_description c @ newline),
                 Connection_close (ev_connection e)]
           else []),
       exit_code := (if condition_is_set c then 1 else exit_code w)\<rparr>"
  by (simp add: check_condition_def act_def Let_def)

lemma handle_cases:
  obtains
    (plain) xs x f where
      "handle lib e w =
         Some (Inr (w\<lparr>trace := trace w @ xs, exit_code := x, link_credit := f\<rparr>, not_inactive e))"
      "list_all plain xs" "\<not> arrival e" "\<not> acceptance e"
  | (flow) l where
      "ev_type e = PN_LINK_FLOW" "ev_link e = Some l" "link_is_sender l"
      "handle lib e w =
         (case send_loop lib l w of
            None \<Rightarrow> None
          | Some (Inl x) \<Rightarrow> Some (Inl x)
          | Some (Inr w1) \<Rightarrow> Some (Inr (w1, True)))"
  | (ack) l where
      "ev_type e = PN_DELIVERY" "ev_link e = Some l" "link_is_sender l"
      "dlv_remote_state (ev_delivery e) = PN_ACCEPTED"
      "handle lib e w =
         Some (Inr (w\<lparr>app := (app w)\<lparr>acknowledged := acknowledged (app w) + 1\<rparr>,
                      trace := trace w @
                        (if acknowledged (app w) + 1 = message_count (app w)
                         then [Stdout (printf_d (acknowledged (app w) + 1)
                                   @ '' messages sent and acknowledged'' @ newline),
                               Connection_close (ev_connection e)]
                         else [])\<rparr>, True))"
  | (recv) l where
      "ev_type e = PN_DELIVERY" "ev_link e = Some l" "\<not> link_is_sender l"
      "dlv_readable (ev_delivery e)" "\<not> dlv_partial (ev_delivery e)"
      "handle lib e w = Some (Inr (handle_receive l e w, True))"
proof -
  let ?cc = "\<lambda>c. if condition_is_set c
           then [Stderr (pn_event_type_name (ev_type e) @ '': '' @ condition_name c @ '': ''
                          @ condition_description c @ newline),
                 Connection_close (ev_connection e)]
           else []"
  let ?cx = "\<lambda>c. if condition_is_set c then 1 else exit_code w"
  have pl: thesis
    if "handle lib e w =
         Some (Inr (w\<lparr>trace := trace w @ xs, exit_code := x, link_credit := f\<rparr>, not_inactive e))"
      "list_all plain xs" "\<not> arrival e" "\<not> acceptance e" for xs x f
    using that by (rule plain)
  have same: "thesis" if "handle lib e w = Some (Inr (w, not_inactive e))"
      "\<not> arrival e" "\<not> acceptance e"
    using that by (intro pl [of "link_credit w" "exit_code w"
            "[]"]) simp_all
  have other: thesis
    if t: "ev_type e = PN_LINK_REMOTE_OPEN \<or> ev_type e = PN_LINK_FLOW
         \<or> ev_type e = PN_DELIVERY \<or> (\<exists>s. ev_type e = PN_EVENT_OTHER s)"
  proof (cases "ev_link e")
    case None
    with t show thesis
      by (intro same) (auto simp: arrival_def acceptance_def handle_def not_inactive_def)
  next
    case (Some l)
    show thesis
    proof (cases "link_is_sender l")
      case True
      from t consider (a) "ev_type e = PN_LINK_REMOTE_OPEN" | (b) "ev_type e = PN_LINK_FLOW"
        | (c) "ev_type e = PN_DELIVERY" | (d) s where "ev_type e = PN_EVENT_OTHER s"
        by blast
      then show thesis
      proof cases
        case a
        with Some True show thesis
          by (intro pl [of "link_credit w" "exit_code w"
            "[Terminus_set_address (link_id l) (amqp_address (app w)),
                Link_open (link_id l)]"])
            (simp_all add: arrival_def acceptance_def handle_def handle_send_def act_def not_inactive_def)
      next
        case b
        with Some True show thesis
          by (intro flow [of l]) (simp_all add: arrival_def acceptance_def handle_def handle_send_def)
      next
        case c
        show thesis
        proof (cases "dlv_remote_state (ev_delivery e) = PN_ACCEPTED")
          case acc: True
          with c Some True show thesis
            by (intro ack [of l]) (simp_all add: arrival_def acceptance_def handle_def handle_send_def act_def Let_def)
        next
          case False
          with c Some True show thesis
            by (intro same) (simp_all add: arrival_def acceptance_def handle_def handle_send_def not_inactive_def)
        qed
      next
        case d
        with Some True show thesis
          by (intro same) (simp_all add: arrival_def acceptance_def handle_def handle_send_def not_inactive_def)
      qed
    next
      case False
      from t consider (a) "ev_type e = PN_LINK_REMOTE_OPEN" | (b) "ev_type e = PN_LINK_FLOW"
        | (c) "ev_type e = PN_DELIVERY" | (d) s where "ev_type e = PN_EVENT_OTHER s"
        by blast
      then show thesis
      proof cases
        case a
        let ?n = "if message_count (app w) \<noteq> 0 then message_count (app w) else BATCH"
        from a Some False show thesis
          by (intro pl [of "(link_credit w)(link_id l := link_credit w (link_id l) + ?n)" "exit_code w"
            "[Link_open (link_id l), Link_flow (link_id l) ?n]"])
            (simp_all add: arrival_def acceptance_def handle_def handle_receive_def act_def pn_link_flow_def not_inactive_def)
      next
        case b
        with Some False show thesis
          by (intro same) (simp_all add: arrival_def acceptance_def handle_def handle_receive_def not_inactive_def)
      next
        case c
        show thesis
        proof (cases "dlv_readable (ev_delivery e) \<and> \<not> dlv_partial (ev_delivery e)")
          case True
          with c Some False show thesis
            by (intro recv [of l]) (simp_all add: arrival_def acceptance_def handle_def)
        next
          case nc: False
          with c Some False show thesis
            by (intro same) (auto simp: arrival_def acceptance_def handle_def handle_receive_def not_inactive_def Let_def)
        qed
      next
        case d
        with Some False show thesis
          by (intro same) (simp_all add: arrival_def acceptance_def handle_def handle_receive_def not_inactive_def)
      qed
    qed
  qed
  show thesis
  proof (cases "ev_type e")
    case PN_LISTENER_OPEN
    then show ?thesis
      by (intro pl [of "link_credit w" "exit_code w"
            "[Stdout (''listening'' @ newline)]"])
        (simp_all add: arrival_def acceptance_def handle_def act_def not_inactive_def Let_def)
  next
    case PN_LISTENER_ACCEPT
    then show ?thesis
      by (intro pl [of "link_credit w" "exit_code w"
            "[Listener_accept (ev_listener e)]"])
        (simp_all add: arrival_def acceptance_def handle_def act_def not_inactive_def Let_def)
  next
    case PN_CONNECTION_INIT
    then show ?thesis
      by (intro pl [of "link_credit w" "exit_code w"
            "[Connection_set_container (ev_connection e) (container_id (app w))]"])
        (simp_all add: arrival_def acceptance_def handle_def act_def not_inactive_def Let_def)
  next
    case PN_CONNECTION_BOUND
    then show ?thesis
      by (intro pl [of "link_credit w" "exit_code w"
            "[Transport_require_auth (ev_transport e) False,
            Sasl_allowed_mechs (ev_transport e) ''ANONYMOUS'', Connection_open (ev_connection e)]"])
        (simp_all add: arrival_def acceptance_def handle_def act_def not_inactive_def Let_def)
  next
    case PN_CONNECTION_REMOTE_OPEN
    then show ?thesis
      by (intro pl [of "link_credit w" "exit_code w"
            "[Connection_open (ev_connection e)]"])
        (simp_all add: arrival_def acceptance_def handle_def act_def not_inactive_def Let_def)
  next
    case PN_SESSION_REMOTE_OPEN
    then show ?thesis
      by (intro pl [of "link_credit w" "exit_code w"
            "[Session_open (ev_session e)]"])
        (simp_all add: arrival_def acceptance_def handle_def act_def not_inactive_def Let_def)
  next
    case PN_TRANSPORT_CLOSED
    then show ?thesis
      by (intro pl [of "link_credit w" "?cx (ev_transport_condition e)"
            "?cc (ev_transport_condition e) @ [Listener_close (listener (app w))]"])
        (simp_all add: arrival_def acceptance_def handle_def act_def not_inactive_def check_condition_eq Let_def)
  next
    case PN_CONNECTION_REMOTE_CLOSE
    then show ?thesis
      by (intro pl [of "link_credit w" "?cx (ev_connection_remote_condition e)"
            "?cc (ev_connection_remote_condition e) @ [Connection_close (ev_connection e)]"])
        (simp_all add: arrival_def acceptance_def handle_def act_def not_inactive_def check_condition_eq Let_def)
  next
    case PN_SESSION_REMOTE_CLOSE
    then show ?thesis
      by (intro pl [of "link_credit w" "?cx (ev_session_remote_condition e)"
            "?cc (ev_session_remote_condition e) @ [Connection_close (ev_connection e)]"])
        (simp_all add: arrival_def acceptance_def handle_def act_def not_inactive_def check_condition_eq Let_def)
  next
    case PN_LINK_REMOTE_CLOSE
    then show ?thesis
      by (intro pl [of "link_credit w" "?cx (ev_link_remote_condition e)"
            "?cc (ev_link_remote_condition e) @ [Connection_close (ev_connection e)]"])
        (simp_all add: arrival_def acceptance_def handle_def act_def not_inactive_def check_condition_eq Let_def)
  next
    case PN_LINK_REMOTE_DETACH
    then show ?thesis
      by (intro pl [of "link_credit w" "?cx (ev_link_remote_condition e)"
            "?cc (ev_link_remote_condition e) @ [Connection_close (ev_connection e)]"])
        (simp_all add: arrival_def acceptance_def handle_def act_def not_inactive_def check_condition_eq Let_def)
  next
    case PN_PROACTOR_TIMEOUT
    then show ?thesis
      by (intro pl [of "link_credit w" "exit_code w"
            "[Connection_wake (case sender (app w) of None \<Rightarrow> None
              | Some s \<Rightarrow> session_connection (link_session s))]"])
        (simp_all add: arrival_def acceptance_def handle_def act_def not_inactive_def Let_def)
  next
    case PN_LISTENER_CLOSE
    then show ?thesis
      by (intro pl [of "link_credit w" "?cx (ev_listener_condition e)"
            "?cc (ev_listener_condition e)"])
        (simp_all add: arrival_def acceptance_def handle_def act_def not_inactive_def check_condition_eq Let_def)
  next
    case PN_PROACTOR_INACTIVE
    then show ?thesis
      by (intro same) (simp_all add: arrival_def acceptance_def handle_def not_inactive_def)
  next
    case PN_LINK_REMOTE_OPEN
    then show ?thesis by (intro other) simp_all
  next
    case PN_LINK_FLOW
    then show ?thesis by (intro other) simp_all
  next
    case PN_DELIVERY
    then show ?thesis by (intro other) simp_all
  next
    case (PN_EVENT_OTHER s)
    then show ?thesis by (intro other) simp_all
  qed
qed


lemma decode_message_trace:
  obtains ds where "trace (decode_message d w) = trace w @ ds" "list_all decoding ds"
proof -
  have "trace (decode_message d w)
      = trace w @ drop (length (trace w)) (trace (decode_message d w))
      \<and> list_all decoding (drop (length (trace w)) (trace (decode_message d w)))"
    by (simp add: decode_message_def act_def Let_def split: option.splits)
  then show thesis using that by blast
qed

lemma handle_needing_cases:
  assumes "buffer_ok w"
  obtains
    (plain) xs x f where
      "handle (codec_needing need) e w =
         Some (Inr (w\<lparr>trace := trace w @ xs, exit_code := x, link_credit := f\<rparr>, not_inactive e))"
      "list_all plain xs" "\<not> arrival e" "\<not> acceptance e"
  | (flow) l b where
      "ev_type e = PN_LINK_FLOW" "ev_link e = Some l" "link_is_sender l"
      "rw_start b \<longrightarrow> 0 < rw_size b"
      "handle (codec_needing need) e w =
         Some (Inr (w\<lparr>app := (app w)
                        \<lparr>sent := sent (app w) + of_nat (nat (min (sint (link_credit w (link_id l)))
                             (sint (message_count (app w)) - sint (sent (app w))))),
                         message_buffer := b\<rparr>,
                      link_credit := (link_credit w)
                        (link_id l := link_credit w (link_id l)
                           - of_nat (nat (min (sint (link_credit w (link_id l)))
                             (sint (message_count (app w)) - sint (sent (app w)))))),
                      trace := trace w @ send_actions (link_id l) need (sent (app w))
                         (nat (min (sint (link_credit w (link_id l)))
                             (sint (message_count (app w)) - sint (sent (app w)))))\<rparr>, True))"
  | (ack) l where
      "ev_type e = PN_DELIVERY" "ev_link e = Some l" "link_is_sender l"
      "dlv_remote_state (ev_delivery e) = PN_ACCEPTED"
      "handle (codec_needing need) e w =
         Some (Inr (w\<lparr>app := (app w)\<lparr>acknowledged := acknowledged (app w) + 1\<rparr>,
                      trace := trace w @
                        (if acknowledged (app w) + 1 = message_count (app w)
                         then [Stdout (printf_d (acknowledged (app w) + 1)
                                   @ '' messages sent and acknowledged'' @ newline),
                               Connection_close (ev_connection e)]
                         else [])\<rparr>, True))"
  | (recv) l ds where
      "ev_type e = PN_DELIVERY" "ev_link e = Some l" "\<not> link_is_sender l"
      "dlv_readable (ev_delivery e)" "\<not> dlv_partial (ev_delivery e)"
      "list_all decoding ds"
      "handle (codec_needing need) e w =
         Some (Inr (
           (let d = ev_delivery e; k = link_id (dlv_link d); c = link_credit w k - 1;
                r = received (app w); n = message_count (app w) in
            \<lparr>app = (app w)\<lparr>received := (if n = 0 then r else r + 1)\<rparr>,
             exit_code = exit_code w,
             link_credit = (link_credit w)(k := (if n = 0 \<and> sint c < 500 then 1000 else c)),
             trace = trace w @ ds
               @ [Delivery_update (dlv_id d) PN_ACCEPTED, Link_advance k, Delivery_settle (dlv_id d)]
               @ (if n = 0 then (if sint c < 500 then [Link_flow k (1000 - c)] else [])
                  else if sint n \<le> sint (r + 1)
                  then [Stdout (printf_d (r + 1) @ '' messages received'' @ newline),
                        Link_close k, Session_close (session_id (link_session (dlv_link d))),
                        Connection_close (session_connection (link_session (dlv_link d)))]
                  else [])\<rparr>), True))"
proof (cases rule: handle_cases [where lib = "codec_needing need" and e = e and w = w])
  case (plain xs x f)
  then show ?thesis by (rule that(1))
next
  case (flow l)
  from send_loop_needing [OF assms refl, where l = l and need = need] obtain b where
    "send_loop (codec_needing need) l w =
       Some (Inr (w\<lparr>app := (app w)
                        \<lparr>sent := sent (app w) + of_nat (nat (min (sint (link_credit w (link_id l)))
                             (sint (message_count (app w)) - sint (sent (app w))))),
                         message_buffer := b\<rparr>,
                      link_credit := (link_credit w)
                        (link_id l := link_credit w (link_id l)
                           - of_nat (nat (min (sint (link_credit w (link_id l)))
                             (sint (message_count (app w)) - sint (sent (app w)))))),
                      trace := trace w @ send_actions (link_id l) need (sent (app w))
                         (nat (min (sint (link_credit w (link_id l)))
                             (sint (message_count (app w)) - sint (sent (app w)))))\<rparr>))"
    and "rw_start b \<longrightarrow> 0 < rw_size b"
    by blast
  with flow show ?thesis by (intro that(2) [of l b]) simp_all
next
  case (ack l)
  then show ?thesis by (rule that(3))
next
  case (recv l)
  obtain ds where ds: "trace (decode_message (ev_delivery e) w) = trace w @ ds" "list_all decoding ds"
    by (rule decode_message_trace)
  from recv ds show ?thesis
    by (intro that(4) [of l ds]) (simp_all add: handle_receive_complete Let_def)
qed



section \<open>Invariants of a run\<close>

lemma send_loop_stop:
  assumes "\<not> (0 < sint (pn_link_credit l w)
      \<and> sint (sent (app w)) < sint (message_count (app w)))"
  shows "send_loop lib l w = Some (Inr w)"
  by (subst send_loop.simps) (use assms in \<open>simp only: if_False\<close>)

lemma invariant_weaken:
  assumes mono: "\<And>n w. I (Suc n) w \<Longrightarrow> I n w"
  shows "I (k + m) w \<Longrightarrow> I m w"
  by (induction k) (auto dest: mono)

lemma dispatch_invariant:
  assumes step: "\<And>n e w. I (Suc n) w \<Longrightarrow> E e \<Longrightarrow>
            \<exists>w'. handle lib e w = Some (Inr (w', not_inactive e)) \<and> I n w'"
    and mono: "\<And>n w. I (Suc n) w \<Longrightarrow> I n w"
  shows "I (length es + m) w \<Longrightarrow> list_all E es \<Longrightarrow>
         \<exists>w'. dispatch lib es w = Some (Inr (w', list_all not_inactive es)) \<and> I m w'"
proof (induction es arbitrary: w)
  case Nil
  then show ?case by simp
next
  case (Cons e es)
  from Cons.prems have "I (Suc (length es + m)) w" "E e" "list_all E es"
    by simp_all
  from step [OF this(1,2)] obtain w1 where
    h: "handle lib e w = Some (Inr (w1, not_inactive e))" and i: "I (length es + m) w1"
    by blast
  show ?case
  proof (cases "not_inactive e")
    case True
    from Cons.IH [OF i \<open>list_all E es\<close>] obtain w' where
      "dispatch lib es w1 = Some (Inr (w', list_all not_inactive es))" "I m w'"
      by blast
    with h True show ?thesis by simp
  next
    case False
    from invariant_weaken [of I, OF mono i] have "I m w1" .
    with h False show ?thesis by simp
  qed
qed

lemma run_invariant:
  assumes step: "\<And>n e w. I (Suc n) w \<Longrightarrow> E e \<Longrightarrow>
            \<exists>w'. handle lib e w = Some (Inr (w', not_inactive e)) \<and> I n w'"
    and mono: "\<And>n w. I (Suc n) w \<Longrightarrow> I n w"
    and wait: "\<And>n w f. I n w \<Longrightarrow>
            I n ((act (Proactor_wait (proactor (app w))) w)\<lparr>link_credit := f\<rparr>)"
    and dn: "\<And>n w. I n w \<Longrightarrow> I n (act (Proactor_done (proactor (app w))) w)"
  shows "I (length (events_of bs) + m) w \<Longrightarrow> list_all E (events_of bs) \<Longrightarrow>
         \<exists>w'. run lib bs w =
                 Some (Inr (w', if list_all not_inactive (events_of bs) then Waiting else Returned))
              \<and> I m w'"
proof (induction bs arbitrary: w)
  case Nil
  from Nil.prems(1) have "I m w" by (simp add: events_of_def)
  from wait [OF this, of "link_credit w"] have "I m (act (Proactor_wait (proactor (app w))) w)"
    by (simp add: act_def)
  then show ?case by (simp add: events_of_def)
next
  case (Cons b bs)
  let ?w1 = "(act (Proactor_wait (proactor (app w))) w)\<lparr>link_credit := batch_credit b\<rparr>"
  from Cons.prems(1) have "I (length (batch_events b) + (length (events_of bs) + m)) w"
    by (simp add: events_of_def add.assoc)
  then have i1: "I (length (batch_events b) + (length (events_of bs) + m)) ?w1"
    by (rule wait)
  from Cons.prems(2) have e: "list_all E (batch_events b)" "list_all E (events_of bs)"
    by (simp_all add: events_of_def)
  from dispatch_invariant [of I E lib, OF step mono i1 e(1)] obtain w2 where
    d: "dispatch lib (batch_events b) ?w1 = Some (Inr (w2, list_all not_inactive (batch_events b)))"
    and i2: "I (length (events_of bs) + m) w2"
    by blast
  show ?case
  proof (cases "list_all not_inactive (batch_events b)")
    case True
    from dn [OF i2] have "I (length (events_of bs) + m) (act (Proactor_done (proactor (app w2))) w2)" .
    from Cons.IH [OF this e(2)] obtain w' where
      "run lib bs (act (Proactor_done (proactor (app w2))) w2) =
         Some (Inr (w', if list_all not_inactive (events_of bs) then Waiting else Returned))"
      "I m w'"
      by blast
    with d True show ?thesis by (simp add: events_of_def Let_def)
  next
    case False
    from invariant_weaken [of I, OF mono i2] have "I m w2" .
    with d False show ?thesis by (simp add: events_of_def Let_def)
  qed
qed


text \<open>
  Claim C10. With \<open>message_count = 0\<close> (and \<open>sent = 0\<close>, as \<open>main\<close> leaves it) a run
  over any batches of events gets through all of them with \<open>received\<close> unchanged,
  whatever is delivered, and never closes a link or a session: the branch that reports
  the messages received and closes the endpoints is never taken.
\<close>

theorem unbounded_never_counts:
  assumes "message_count (app w) = 0" and "sent (app w) = 0"
  shows "\<exists>w' r xs. run lib bs w = Some (Inr (w', r))
           \<and> received (app w') = received (app w)
           \<and> trace w' = trace w @ xs \<and> \<not> list_ex closes_link xs"
proof -
  define I :: "nat \<Rightarrow> world \<Rightarrow> bool" where
    "I = (\<lambda>n v. message_count (app v) = 0 \<and> sent (app v) = 0
            \<and> received (app v) = received (app w)
            \<and> (\<exists>xs. trace v = trace w @ xs \<and> \<not> list_ex closes_link xs))"
  have step: "\<exists>w'. handle lib e v = Some (Inr (w', not_inactive e)) \<and> I n w'"
    if "I (Suc n) v" "True" for n e v
  proof -
    from that(1) obtain xs where v: "message_count (app v) = 0" "sent (app v) = 0"
      "received (app v) = received (app w)" "trace v = trace w @ xs" "\<not> list_ex closes_link xs"
      unfolding I_def by blast
    show ?thesis
    proof (cases rule: handle_cases [where lib = lib and e = e and w = v])
      case (plain ys x f)
      have "\<not> list_ex closes_link ys"
        using plain(2) by (induction ys) (auto elim: plain.elims)
      with v plain(1) show ?thesis
        unfolding I_def by (auto simp: list_ex_iff)
    next
      case (flow l)
      have "send_loop lib l v = Some (Inr v)"
        by (rule send_loop_stop) (simp add: v)
      with flow(1,4) that(1) show ?thesis
        by (simp add: not_inactive_def I_def)
    next
      case (ack l)
      with v show ?thesis
        unfolding I_def by (auto simp: not_inactive_def)
    next
      case (recv l)
      have "trace (decode_message (ev_delivery e) v) = trace v @ drop (length (trace v)) (trace (decode_message (ev_delivery e) v))
        \<and> \<not> list_ex closes_link (drop (length (trace v)) (trace (decode_message (ev_delivery e) v)))"
        by (simp add: decode_message_def act_def Let_def split: option.splits)
      then obtain ds where ds: "trace (decode_message (ev_delivery e) v) = trace v @ ds"
        "\<not> list_ex closes_link ds"
        by blast
      from recv v ds show ?thesis
        unfolding I_def
        by (simp add: handle_receive_complete Let_def not_inactive_def)
    qed
  qed
  have mono: "I n v" if "I (Suc n) v" for n v
    using that by (simp add: I_def)
  have wait: "I n ((act (Proactor_wait (proactor (app v))) v)\<lparr>link_credit := f\<rparr>)" if "I n v" for n v f
    using that by (auto simp: I_def act_def)
  have dn: "I n (act (Proactor_done (proactor (app v))) v)" if "I n v" for n v
    using that by (auto simp: I_def act_def)
  have start: "I (length (events_of bs) + 0) w"
    using assms by (simp add: I_def)
  have all: "list_all (\<lambda>e. True) (events_of bs)"
    by (simp add: list_all_iff)
  from run_invariant [of I "\<lambda>e. True" lib, OF step mono wait dn start all]
  show ?thesis unfolding I_def by blast
qed


theorem unbounded_never_counts_witness:
  "message_count (app (main_state ''A'' [] ''amqp'' ''example'' 0)) = 0
   \<and> sent (app (main_state ''A'' [] ''amqp'' ''example'' 0)) = 0
   \<and> (\<exists>w' r xs. run (codec_needing (\<lambda>m. 40)) [one_message] (main_state ''A'' [] ''amqp'' ''example'' 0)
                    = Some (Inr (w', r))
          \<and> received (app w') = 0 \<and> trace w' = xs \<and> \<not> list_ex closes_link xs)"
proof -
  let ?w = "main_state ''A'' [] ''amqp'' ''example'' 0"
  have a: "message_count (app ?w) = 0" and b: "sent (app ?w) = 0"
    by (simp_all add: main_state_def)
  have c: "received (app ?w) = 0" "trace ?w = []"
    by (simp_all add: main_state_def)
  from unbounded_never_counts [OF a b, of "codec_needing (\<lambda>m. 40)" "[one_message]"] a b
  show ?thesis by (simp add: c)
qed

section \<open>The loop of run\<close>

lemma proactor_calls_append [simp]:
  "proactor_calls (xs @ ys) = proactor_calls xs @ proactor_calls ys"
  by (simp add: proactor_calls_def)












section \<open>Runs and the events they have handled\<close>

lemma handled_all: "list_all not_inactive es \<Longrightarrow> handled es = es"
  by (induction es) auto

lemma handled_append:
  "handled (es @ es') = (if list_all not_inactive es then es @ handled es' else handled es)"
  by (induction es) auto

lemma length_handled: "length (handled es) \<le> length es"
  by (induction es) auto

lemma dispatch_history:
  assumes step: "\<And>hs e w. J hs w \<Longrightarrow> E e \<Longrightarrow>
            \<exists>w'. handle lib e w = Some (Inr (w', not_inactive e)) \<and> J (hs @ [e]) w'"
  shows "J hs w \<Longrightarrow> list_all E es \<Longrightarrow>
         \<exists>w'. dispatch lib es w = Some (Inr (w', list_all not_inactive es))
             \<and> J (hs @ handled es) w'"
proof (induction es arbitrary: hs w)
  case Nil
  then show ?case by simp
next
  case (Cons e es)
  from Cons.prems have "E e" "list_all E es" by simp_all
  from step [OF Cons.prems(1) \<open>E e\<close>] obtain w1 where
    h: "handle lib e w = Some (Inr (w1, not_inactive e))" and j: "J (hs @ [e]) w1"
    by blast
  show ?case
  proof (cases "not_inactive e")
    case True
    from Cons.IH [OF j \<open>list_all E es\<close>] obtain w' where
      "dispatch lib es w1 = Some (Inr (w', list_all not_inactive es))"
      "J ((hs @ [e]) @ handled es) w'"
      by blast
    with h True show ?thesis by simp
  next
    case False
    with h j show ?thesis by simp
  qed
qed

lemma run_history:
  assumes step: "\<And>hs e w. J hs w \<Longrightarrow> E e \<Longrightarrow>
            \<exists>w'. handle lib e w = Some (Inr (w', not_inactive e)) \<and> J (hs @ [e]) w'"
    and wait: "\<And>hs w f. J hs w \<Longrightarrow>
            J hs ((act (Proactor_wait (proactor (app w))) w)\<lparr>link_credit := f\<rparr>)"
    and dn: "\<And>hs w. J hs w \<Longrightarrow> J hs (act (Proactor_done (proactor (app w))) w)"
  shows "J hs w \<Longrightarrow> list_all E (events_of bs) \<Longrightarrow>
         \<exists>w'. run lib bs w =
                 Some (Inr (w', if list_all not_inactive (events_of bs) then Waiting else Returned))
              \<and> J (hs @ handled (events_of bs)) w'"
proof (induction bs arbitrary: hs w)
  case Nil
  from wait [OF Nil.prems(1), of "link_credit w"]
  have "J hs (act (Proactor_wait (proactor (app w))) w)"
    by (simp add: act_def)
  then show ?case by (simp add: events_of_def)
next
  case (Cons b bs)
  let ?w1 = "(act (Proactor_wait (proactor (app w))) w)\<lparr>link_credit := batch_credit b\<rparr>"
  have j1: "J hs ?w1"
    using Cons.prems(1) by (rule wait)
  from Cons.prems(2) have e: "list_all E (batch_events b)" "list_all E (events_of bs)"
    by (simp_all add: events_of_def)
  from dispatch_history [of J E lib, OF step j1 e(1)] obtain w2 where
    d: "dispatch lib (batch_events b) ?w1 = Some (Inr (w2, list_all not_inactive (batch_events b)))"
    and j2: "J (hs @ handled (batch_events b)) w2"
    by blast
  have ev: "events_of (b # bs) = batch_events b @ events_of bs"
    by (simp add: events_of_def)
  show ?case
  proof (cases "list_all not_inactive (batch_events b)")
    case True
    with j2 have "J (hs @ batch_events b) w2" by (simp add: handled_all)
    then have "J (hs @ batch_events b) (act (Proactor_done (proactor (app w2))) w2)"
      by (rule dn)
    from Cons.IH [OF this e(2)] obtain w' where
      "run lib bs (act (Proactor_done (proactor (app w2))) w2) =
         Some (Inr (w', if list_all not_inactive (events_of bs) then Waiting else Returned))"
      "J ((hs @ batch_events b) @ handled (events_of bs)) w'"
      by blast
    with d True show ?thesis by (simp add: ev handled_append Let_def)
  next
    case False
    with d j2 show ?thesis by (simp add: ev handled_append Let_def)
  qed
qed

lemma sint_succ_below:
  fixes x :: c_int
  assumes "sint x < 2 ^ 31 - 1"
  shows "sint (x + 1) = sint x + 1"
proof -
  have "sint x < sint (0x7FFFFFFF :: c_int)"
    using assms by simp
  then show ?thesis by (rule sint_succ)
qed


section \<open>Acknowledgements\<close>

lemma count_list_plain: "list_all plain xs \<Longrightarrow> \<not> plain a \<Longrightarrow> count_list xs a = 0"
  by (induction xs) auto

lemma count_list_send_actions_Stdout: "count_list (send_actions k need s n) (Stdout t) = 0"
  by (induction n arbitrary: s) simp_all

lemma report_not_plain:
  "\<not> plain (Stdout (printf_d n @ '' messages sent and acknowledged'' @ newline))"
proof -
  have "length (printf_d n @ '' messages sent and acknowledged'' @ newline)
      \<noteq> length (''listening'' @ newline)"
    by (simp add: newline_def)
  then show ?thesis by auto
qed


text \<open>
  Claim C3. On a delivery event for a sending link the handler adds one to
  \<open>acknowledged\<close> when the remote state is \<open>PN_ACCEPTED\<close> and leaves it alone
  otherwise; when the counter has then become equal to \<open>message_count\<close> it prints
  "N messages sent and acknowledged" and closes the connection of the event, and in
  every case \<open>handle\<close> returns \<open>True\<close>, so the loop goes on. Over a run that starts
  with \<open>acknowledged = 0\<close> and in which no message arrives on a receiving link, the
  counter ends at the number of acceptances handled, and the line is printed once when
  that number has reached a positive \<open>message_count\<close> and not at all before. The run
  has fewer than \<open>2 ^ 31\<close> events, which keeps the counter an \<open>int\<close>.
\<close>

theorem acknowledged_closes_once:
  "(ev_type e = PN_DELIVERY \<longrightarrow>
      handle_send lib l e w =
        Some (Inr (if dlv_remote_state (ev_delivery e) = PN_ACCEPTED
                   then w\<lparr>app := (app w)\<lparr>acknowledged := acknowledged (app w) + 1\<rparr>,
                          trace := trace w @
                            (if acknowledged (app w) + 1 = message_count (app w)
                             then [Stdout (printf_d (acknowledged (app w) + 1)
                                       @ '' messages sent and acknowledged'' @ newline),
                                   Connection_close (ev_connection e)]
                             else [])\<rparr>
                   else w))
      \<and> (ev_link e = Some l \<and> link_is_sender l \<longrightarrow>
            (\<exists>w'. handle lib e w = Some (Inr (w', True)))))
   \<and> (acknowledged (app w) = 0 \<and> buffer_ok w \<and> length (events_of bs) < 2 ^ 31
        \<and> \<not> list_ex arrival (events_of bs) \<longrightarrow>
        (\<exists>w' r. run (codec_needing need) bs w = Some (Inr (w', r))
           \<and> sint (acknowledged (app w')) = int (length (filter acceptance (handled (events_of bs))))
           \<and> count_list (trace w')
                (Stdout (printf_d (message_count (app w))
                    @ '' messages sent and acknowledged'' @ newline))
               = count_list (trace w)
                   (Stdout (printf_d (message_count (app w))
                      @ '' messages sent and acknowledged'' @ newline))
                 + (if 0 < sint (message_count (app w))
                       \<and> sint (message_count (app w))
                           \<le> int (length (filter acceptance (handled (events_of bs))))
                    then 1 else 0)))"
proof (intro conjI impI)
  assume t: "ev_type e = PN_DELIVERY"
  then show hs: "handle_send lib l e w =
        Some (Inr (if dlv_remote_state (ev_delivery e) = PN_ACCEPTED
                   then w\<lparr>app := (app w)\<lparr>acknowledged := acknowledged (app w) + 1\<rparr>,
                          trace := trace w @
                            (if acknowledged (app w) + 1 = message_count (app w)
                             then [Stdout (printf_d (acknowledged (app w) + 1)
                                       @ '' messages sent and acknowledged'' @ newline),
                                   Connection_close (ev_connection e)]
                             else [])\<rparr>
                   else w))"
    by (simp add: handle_send_def Let_def act_def)
  assume "ev_link e = Some l \<and> link_is_sender l"
  with t hs show "\<exists>w'. handle lib e w = Some (Inr (w', True))"
    by (simp add: handle_def)
next
  let ?N = "message_count (app w)"
  let ?R = "Stdout (printf_d ?N @ '' messages sent and acknowledged'' @ newline)"
  let ?lib = "codec_needing need"
  assume a: "acknowledged (app w) = 0 \<and> buffer_ok w \<and> length (events_of bs) < 2 ^ 31
        \<and> \<not> list_ex arrival (events_of bs)"
  define J :: "pn_event_t list \<Rightarrow> world \<Rightarrow> bool" where
    "J = (\<lambda>hs v. buffer_ok v \<and> message_count (app v) = ?N
           \<and> (length hs < 2 ^ 31 \<longrightarrow>
                sint (acknowledged (app v)) = int (length (filter acceptance hs))
                \<and> count_list (trace v) ?R = count_list (trace w) ?R
                    + (if 0 < sint ?N \<and> sint ?N \<le> int (length (filter acceptance hs))
                       then 1 else 0)))"
  have step: "\<exists>v'. handle ?lib e v = Some (Inr (v', not_inactive e)) \<and> J (hs @ [e]) v'"
    if j: "J hs v" and e: "\<not> arrival e" for hs e v
  proof -
    from j have ok: "buffer_ok v" and n: "message_count (app v) = ?N"
      and p: "length hs < 2 ^ 31 \<Longrightarrow>
                sint (acknowledged (app v)) = int (length (filter acceptance hs))
                \<and> count_list (trace v) ?R = count_list (trace w) ?R
                    + (if 0 < sint ?N \<and> sint ?N \<le> int (length (filter acceptance hs))
                       then 1 else 0)"
      by (simp_all add: J_def)
    from ok show ?thesis
    proof (cases rule: handle_needing_cases [where need = need and e = e])
      case (plain xs x f)
      have "count_list xs ?R = 0"
        using plain(2) report_not_plain by (rule count_list_plain)
      with plain ok n p show ?thesis
        by (simp add: J_def buffer_ok_def)
    next
      case (flow l b)
      then have "\<not> acceptance e" by (simp add: acceptance_def)
      with flow ok n p show ?thesis
        by (simp add: J_def buffer_ok_def not_inactive_def count_list_send_actions_Stdout)
    next
      case (ack l)
      then have acc: "acceptance e" by (simp add: acceptance_def)
      let ?a = "acknowledged (app v)"
      let ?k = "length (filter acceptance hs)"
      have q: "sint (?a + 1) = int ?k + 1
          \<and> count_list (trace v) ?R
              + count_list (if ?a + 1 = ?N
                  then [Stdout (printf_d (?a + 1) @ '' messages sent and acknowledged'' @ newline),
                        Connection_close (ev_connection e)] else []) ?R
            = count_list (trace w) ?R
                + (if 0 < sint ?N \<and> sint ?N \<le> int ?k + 1 then 1 else 0)"
        if len: "Suc (length hs) < 2 ^ 31"
      proof -
        from len have "length hs < 2 ^ 31" by simp
        from p [OF this] have sa: "sint ?a = int ?k"
          and c: "count_list (trace v) ?R = count_list (trace w) ?R
                    + (if 0 < sint ?N \<and> sint ?N \<le> int ?k then 1 else 0)"
          by simp_all
        have "?k \<le> length hs" by simp
        moreover from len have "length hs < 2147483647" by simp
        ultimately have "?k < 2147483647" by (rule le_less_trans)
        then have "int ?k < 2 ^ 31 - 1" by simp
        with sa have s1: "sint (?a + 1) = int ?k + 1"
          by (simp add: sint_succ_below)
        have eq: "(?a + 1 = ?N) = (int ?k + 1 = sint ?N)"
          using s1 by (metis word_eq_iff_signed)
        show ?thesis
          using s1 c eq by auto
      qed
      from ack acc ok n q show ?thesis
        by (simp add: J_def buffer_ok_def not_inactive_def)
    next
      case (recv l ds)
      then have "arrival e" by (simp add: arrival_def)
      with e show ?thesis by simp
    qed
  qed
  have wait: "J hs ((act (Proactor_wait (proactor (app v))) v)\<lparr>link_credit := f\<rparr>)"
    if "J hs v" for hs v f
    using that by (simp add: J_def act_def buffer_ok_def)
  have dn: "J hs (act (Proactor_done (proactor (app v))) v)" if "J hs v" for hs v
    using that by (simp add: J_def act_def buffer_ok_def)
  have start: "J [] w"
    using a by (simp add: J_def)
  have all: "list_all (\<lambda>e. \<not> arrival e) (events_of bs)"
    using a by (simp add: list_all_iff list_ex_iff)
  from run_history [of J "\<lambda>e. \<not> arrival e" ?lib, OF step wait dn start all] obtain w' where
    r: "run ?lib bs w =
          Some (Inr (w', if list_all not_inactive (events_of bs) then Waiting else Returned))"
    and j: "J (handled (events_of bs)) w'"
    by auto
  have "length (handled (events_of bs)) < 2 ^ 31"
    using a length_handled [of "events_of bs"] by simp
  with j have "sint (acknowledged (app w')) = int (length (filter acceptance (handled (events_of bs))))
           \<and> count_list (trace w') ?R = count_list (trace w) ?R
                 + (if 0 < sint ?N \<and> sint ?N \<le> int (length (filter acceptance (handled (events_of bs))))
                    then 1 else 0)"
    by (simp add: J_def)
  with r show "\<exists>w' r. run ?lib bs w = Some (Inr (w', r))
           \<and> sint (acknowledged (app w')) = int (length (filter acceptance (handled (events_of bs))))
           \<and> count_list (trace w') ?R = count_list (trace w) ?R
                 + (if 0 < sint ?N \<and> sint ?N \<le> int (length (filter acceptance (handled (events_of bs))))
                    then 1 else 0)"
    by blast
qed


theorem acknowledged_closes_once_witness:
  "ev_type (acceptance_arrives 11 (a_link 4 True)) = PN_DELIVERY
   \<and> ev_link (acceptance_arrives 11 (a_link 4 True)) = Some (a_link 4 True)
   \<and> link_is_sender (a_link 4 True)
   \<and> handle_send (codec_needing (\<lambda>m. 40)) (a_link 4 True) (acceptance_arrives 11 (a_link 4 True))
        ((main_state ''A'' [] ''amqp'' ''example'' 1)) =
       Some (Inr ((main_state ''A'' [] ''amqp'' ''example'' 1)
                    \<lparr>app := (app (main_state ''A'' [] ''amqp'' ''example'' 1))\<lparr>acknowledged := 1\<rparr>,
                     trace := [Stdout (''1 messages sent and acknowledged'' @ newline),
                               Connection_close (Some 7)]\<rparr>))
   \<and> acknowledged (app (main_state ''A'' [] ''amqp'' ''example'' 2)) = 0
   \<and> buffer_ok (main_state ''A'' [] ''amqp'' ''example'' 2)
   \<and> length (events_of [three_acceptances]) < 2 ^ 31
   \<and> \<not> list_ex arrival (events_of [three_acceptances])
   \<and> (\<exists>w' r. run (codec_needing (\<lambda>m. 40)) [three_acceptances]
                 (main_state ''A'' [] ''amqp'' ''example'' 2) = Some (Inr (w', r))
          \<and> sint (acknowledged (app w')) = 3
          \<and> count_list (trace w') (Stdout (''2 messages sent and acknowledged'' @ newline)) = 1)"
proof -
  let ?l = "a_link 4 True"
  let ?e = "acceptance_arrives 11 ?l"
  let ?v = "main_state ''A'' [] ''amqp'' ''example'' 1"
  let ?w = "main_state ''A'' [] ''amqp'' ''example'' 2"
  let ?lib = "codec_needing (\<lambda>m. 40)"
  have e: "ev_type ?e = PN_DELIVERY" "ev_link ?e = Some ?l" "link_is_sender ?l"
    "dlv_remote_state (ev_delivery ?e) = PN_ACCEPTED" "ev_connection ?e = Some 7"
    by (simp_all add: acceptance_arrives_def an_event_def a_link_def a_delivery_def)
  have v: "acknowledged (app ?v) = 0" "message_count (app ?v) = 1" "trace ?v = []"
    by (simp_all add: main_state_def)
  have w: "acknowledged (app ?w) = 0" "buffer_ok ?w" "message_count (app ?w) = 2" "trace ?w = []"
    by (simp_all add: main_state_def buffer_ok_def)
  have p: "printf_d 1 = ''1''" "printf_d 2 = ''2''"
    by code_simp+
  have ev: "length (events_of [three_acceptances]) < 2 ^ 31"
    "\<not> list_ex arrival (events_of [three_acceptances])"
    "length (filter acceptance (handled (events_of [three_acceptances]))) = 3"
    by (simp_all add: events_of_def three_acceptances_def arrival_def acceptance_def
        acceptance_arrives_def an_event_def a_link_def a_delivery_def not_inactive_def)
  note step = acknowledged_closes_once [where e = ?e and lib = ?lib and l = ?l and w = ?v
      and need = "\<lambda>m. 40" and bs = "[]", THEN conjunct1]
  note runs = acknowledged_closes_once [where e = ?e and lib = ?lib and l = ?l and w = ?w
      and need = "\<lambda>m. 40" and bs = "[three_acceptances]", THEN conjunct2]
  from step e have "handle_send ?lib ?l ?e ?v =
       Some (Inr (?v\<lparr>app := (app ?v)\<lparr>acknowledged := 1\<rparr>,
                     trace := [Stdout (''1 messages sent and acknowledged'' @ newline),
                               Connection_close (Some 7)]\<rparr>))"
    by (simp add: v p)
  moreover from runs w ev
  have "\<exists>w' r. run ?lib [three_acceptances] ?w = Some (Inr (w', r))
          \<and> sint (acknowledged (app w')) = 3
          \<and> count_list (trace w') (Stdout (''2 messages sent and acknowledged'' @ newline)) = 1"
    by (simp add: p)
  ultimately show ?thesis using e w ev by simp
qed

section \<open>Counting the messages received\<close>

lemma count_of_append [simp]: "count_of P (xs @ ys) = count_of P xs + count_of P ys"
  by (simp add: count_of_def)

lemma count_of_Nil [simp]: "count_of P [] = 0"
  by (simp add: count_of_def)

lemma count_of_Cons [simp]: "count_of P (x # xs) = (if P x then 1 else 0) + count_of P xs"
  by (simp add: count_of_def)

lemma count_of_none:
  assumes "\<And>a. Q a \<Longrightarrow> \<not> P a"
  shows "list_all Q xs \<Longrightarrow> count_of P xs = 0"
  by (induction xs) (auto dest: assms)

lemma plain_not_counted:
  assumes "plain a"
  shows "\<not> is_settle a" "\<not> is_accept a" "\<not> is_link_close a" "\<not> is_session_close a"
  using assms by (cases a; simp)+

lemma decoding_not_counted:
  assumes "decoding a"
  shows "\<not> is_settle a" "\<not> is_accept a" "\<not> is_link_close a" "\<not> is_session_close a"
  using assms by (cases a; simp)+

lemma send_actions_not_counted:
  "count_of is_settle (send_actions k need s n) = 0"
  "count_of is_accept (send_actions k need s n) = 0"
  "count_of is_link_close (send_actions k need s n) = 0"
  "count_of is_session_close (send_actions k need s n) = 0"
  by (induction n arbitrary: s; simp)+

lemma receiver_run:
  assumes "0 < sint (message_count (app w))" and "received (app w) = 0" and "buffer_ok w"
    and "length (events_of bs) < 2 ^ 31"
  shows "\<exists>w' r. run (codec_needing need) bs w = Some (Inr (w', r))
           \<and> sint (received (app w')) = int (length (filter arrival (handled (events_of bs))))
           \<and> count_of is_accept (trace w')
               = count_of is_accept (trace w) + length (filter arrival (handled (events_of bs)))
           \<and> count_of is_settle (trace w')
               = count_of is_settle (trace w) + length (filter arrival (handled (events_of bs)))
           \<and> count_of is_link_close (trace w')
               = count_of is_link_close (trace w)
                 + (length (filter arrival (handled (events_of bs))) + 1
                    - nat (sint (message_count (app w))))
           \<and> count_of is_session_close (trace w')
               = count_of is_session_close (trace w)
                 + (length (filter arrival (handled (events_of bs))) + 1
                    - nat (sint (message_count (app w))))"
proof -
  let ?N = "message_count (app w)"
  let ?n = "nat (sint ?N)"
  let ?lib = "codec_needing need"
  define P :: "nat \<Rightarrow> world \<Rightarrow> bool" where
    "P = (\<lambda>k v. sint (received (app v)) = int k
           \<and> count_of is_accept (trace v) = count_of is_accept (trace w) + k
           \<and> count_of is_settle (trace v) = count_of is_settle (trace w) + k
           \<and> count_of is_link_close (trace v) = count_of is_link_close (trace w) + (k + 1 - ?n)
           \<and> count_of is_session_close (trace v)
               = count_of is_session_close (trace w) + (k + 1 - ?n))"
  define J :: "pn_event_t list \<Rightarrow> world \<Rightarrow> bool" where
    "J = (\<lambda>hs v. buffer_ok v \<and> message_count (app v) = ?N
           \<and> (length hs < 2 ^ 31 \<longrightarrow> P (length (filter arrival hs)) v))"
  have N: "?N \<noteq> 0" "1 \<le> ?n"
    using assms(1) by auto
  have step: "\<exists>v'. handle ?lib e v = Some (Inr (v', not_inactive e)) \<and> J (hs @ [e]) v'"
    if j: "J hs v" for hs e v
  proof -
    from j have ok: "buffer_ok v" and n: "message_count (app v) = ?N"
      and p: "length hs < 2 ^ 31 \<Longrightarrow> P (length (filter arrival hs)) v"
      by (simp_all add: J_def)
    from ok show ?thesis
    proof (cases rule: handle_needing_cases [where need = need and e = e])
      case (plain xs x f)
      with ok n p show ?thesis
        by (simp add: J_def P_def buffer_ok_def
            count_of_none [of plain, OF plain_not_counted(1)]
            count_of_none [of plain, OF plain_not_counted(2)]
            count_of_none [of plain, OF plain_not_counted(3)]
            count_of_none [of plain, OF plain_not_counted(4)])
    next
      case (flow l b)
      then have "\<not> arrival e" by (simp add: arrival_def)
      with flow ok n p show ?thesis
        by (simp add: J_def P_def buffer_ok_def not_inactive_def send_actions_not_counted)
    next
      case (ack l)
      then have "\<not> arrival e" by (simp add: arrival_def)
      with ack ok n p show ?thesis
        by (simp add: J_def P_def buffer_ok_def not_inactive_def)
    next
      case (recv l ds)
      then have arr: "arrival e" by (simp add: arrival_def)
      let ?k = "length (filter arrival hs)"
      let ?d = "ev_delivery e"
      let ?v' = "\<lparr>app = (app v)\<lparr>received := received (app v) + 1\<rparr>,
             exit_code = exit_code v,
             link_credit = (link_credit v)
               (link_id (dlv_link ?d) := link_credit v (link_id (dlv_link ?d)) - 1),
             trace = trace v @ ds
               @ [Delivery_update (dlv_id ?d) PN_ACCEPTED, Link_advance (link_id (dlv_link ?d)),
                  Delivery_settle (dlv_id ?d)]
               @ (if sint ?N \<le> sint (received (app v) + 1)
                  then [Stdout (printf_d (received (app v) + 1) @ '' messages received'' @ newline),
                        Link_close (link_id (dlv_link ?d)),
                        Session_close (session_id (link_session (dlv_link ?d))),
                        Connection_close (session_connection (link_session (dlv_link ?d)))]
                  else [])\<rparr>"
      from recv(7) n N have h: "handle ?lib e v = Some (Inr (?v', True))"
        by (simp add: Let_def)
      have ds: "count_of is_settle ds = 0" "count_of is_accept ds = 0"
        "count_of is_link_close ds = 0" "count_of is_session_close ds = 0"
        using recv(6)
        by (simp_all add: count_of_none [of decoding, OF decoding_not_counted(1)]
            count_of_none [of decoding, OF decoding_not_counted(2)]
            count_of_none [of decoding, OF decoding_not_counted(3)]
            count_of_none [of decoding, OF decoding_not_counted(4)])
      have q: "P (Suc ?k) ?v'" if len: "Suc (length hs) < 2 ^ 31"
      proof -
        from len have "length hs < 2 ^ 31" by simp
        from p [OF this] have pk: "P ?k v" .
        then have sr: "sint (received (app v)) = int ?k" by (simp add: P_def)
        have "?k \<le> length hs" by simp
        moreover from len have "length hs < 2147483647" by simp
        ultimately have "?k < 2147483647" by (rule le_less_trans)
        then have "int ?k < 2 ^ 31 - 1" by simp
        with sr have s1: "sint (received (app v) + 1) = int ?k + 1"
          by (simp add: sint_succ_below)
        have c: "(sint ?N \<le> int ?k + 1) = (?n \<le> Suc ?k)"
          using assms(1) by auto
        show ?thesis
          using pk N(2) by (auto simp: P_def s1 c ds Suc_diff_le)
      qed
      from h ok n q arr show ?thesis
        by (simp add: J_def buffer_ok_def not_inactive_def recv(1))
    qed
  qed
  have wait: "J hs ((act (Proactor_wait (proactor (app v))) v)\<lparr>link_credit := f\<rparr>)"
    if "J hs v" for hs v f
    using that by (simp add: J_def P_def act_def buffer_ok_def)
  have dn: "J hs (act (Proactor_done (proactor (app v))) v)" if "J hs v" for hs v
    using that by (simp add: J_def P_def act_def buffer_ok_def)
  have start: "J [] w"
    using assms N by (simp add: J_def P_def)
  have all: "list_all (\<lambda>e. True) (events_of bs)"
    by (simp add: list_all_iff)
  from run_history [of J "\<lambda>e. True" ?lib, OF step wait dn start all] obtain w' where
    r: "run ?lib bs w =
          Some (Inr (w', if list_all not_inactive (events_of bs) then Waiting else Returned))"
    and j: "J (handled (events_of bs)) w'"
    by auto
  have "length (handled (events_of bs)) < 2 ^ 31"
    using assms(4) length_handled [of "events_of bs"] by simp
  with j have "P (length (filter arrival (handled (events_of bs)))) w'"
    by (simp add: J_def)
  with r show ?thesis unfolding P_def by blast
qed



text \<open>
  Claim C2, as the code has it. With \<open>message_count = N\<close> not 0, every complete
  delivery on a receiving link is accepted, advanced and settled and adds one to
  \<open>received\<close>; when the counter is then at least \<open>N\<close> the handler prints it with
  "messages received" and closes the link, its session and the connection. Over a run
  that starts with \<open>received = 0\<close> and \<open>N > 0\<close>, in which \<open>K\<close> complete messages
  arrive, the counter ends at \<open>K\<close> and the endpoints have been closed \<open>K + 1 - N\<close>
  times: not before the \<open>N\<close>th message, at the \<open>N\<close>th, and again at every later one.
  The counter stays within \<open>N\<close> as long as no more than \<open>N\<close> messages arrive. The
  run has fewer than \<open>2 ^ 31\<close> events, which keeps the counter an \<open>int\<close>.
\<close>

theorem receiver_counts_deliveries:
  "(ev_type e = PN_DELIVERY \<and> dlv_readable (ev_delivery e) \<and> \<not> dlv_partial (ev_delivery e)
      \<and> message_count (app w) \<noteq> 0 \<longrightarrow>
      (let d = ev_delivery e; k = link_id (dlv_link d); r = received (app w) + 1;
           w' = handle_receive l e w
       in received (app w') = r
          \<and> trace w' = trace (decode_message d w)
               @ [Delivery_update (dlv_id d) PN_ACCEPTED, Link_advance k, Delivery_settle (dlv_id d)]
               @ (if sint (message_count (app w)) \<le> sint r
                  then [Stdout (printf_d r @ '' messages received'' @ newline),
                        Link_close k, Session_close (session_id (link_session (dlv_link d))),
                        Connection_close (session_connection (link_session (dlv_link d)))]
                  else [])))
   \<and> (0 < sint (message_count (app w)) \<and> received (app w) = 0 \<and> buffer_ok w
        \<and> length (events_of bs) < 2 ^ 31 \<longrightarrow>
        (\<exists>w' r. run (codec_needing need) bs w = Some (Inr (w', r))
           \<and> sint (received (app w')) = int (length (filter arrival (handled (events_of bs))))
           \<and> count_of is_accept (trace w')
               = count_of is_accept (trace w) + length (filter arrival (handled (events_of bs)))
           \<and> count_of is_settle (trace w')
               = count_of is_settle (trace w) + length (filter arrival (handled (events_of bs)))
           \<and> count_of is_link_close (trace w')
               = count_of is_link_close (trace w)
                 + (length (filter arrival (handled (events_of bs))) + 1
                    - nat (sint (message_count (app w))))
           \<and> count_of is_session_close (trace w')
               = count_of is_session_close (trace w)
                 + (length (filter arrival (handled (events_of bs))) + 1
                    - nat (sint (message_count (app w))))))"
proof (intro conjI impI)
  assume "ev_type e = PN_DELIVERY \<and> dlv_readable (ev_delivery e) \<and> \<not> dlv_partial (ev_delivery e)
      \<and> message_count (app w) \<noteq> 0"
  then show "let d = ev_delivery e; k = link_id (dlv_link d); r = received (app w) + 1;
           w' = handle_receive l e w
       in received (app w') = r
          \<and> trace w' = trace (decode_message d w)
               @ [Delivery_update (dlv_id d) PN_ACCEPTED, Link_advance k, Delivery_settle (dlv_id d)]
               @ (if sint (message_count (app w)) \<le> sint r
                  then [Stdout (printf_d r @ '' messages received'' @ newline),
                        Link_close k, Session_close (session_id (link_session (dlv_link d))),
                        Connection_close (session_connection (link_session (dlv_link d)))]
                  else [])"
    by (simp add: handle_receive_complete Let_def)
next
  assume "0 < sint (message_count (app w)) \<and> received (app w) = 0 \<and> buffer_ok w
        \<and> length (events_of bs) < 2 ^ 31"
  then show "\<exists>w' r. run (codec_needing need) bs w = Some (Inr (w', r))
           \<and> sint (received (app w')) = int (length (filter arrival (handled (events_of bs))))
           \<and> count_of is_accept (trace w')
               = count_of is_accept (trace w) + length (filter arrival (handled (events_of bs)))
           \<and> count_of is_settle (trace w')
               = count_of is_settle (trace w) + length (filter arrival (handled (events_of bs)))
           \<and> count_of is_link_close (trace w')
               = count_of is_link_close (trace w)
                 + (length (filter arrival (handled (events_of bs))) + 1
                    - nat (sint (message_count (app w))))
           \<and> count_of is_session_close (trace w')
               = count_of is_session_close (trace w)
                 + (length (filter arrival (handled (events_of bs))) + 1
                    - nat (sint (message_count (app w))))"
    using receiver_run [of w bs need] by blast
qed

theorem receiver_counts_deliveries_counterexample:
  "map_option (received \<circ> app \<circ> fst)
     (returned (run (codec_needing (\<lambda>m. 40)) [two_links_deliver]
                  (main_state ''A'' [] ''amqp'' ''example'' 1))) = Some 2
   \<and> map_option (count_of is_link_close \<circ> trace \<circ> fst)
       (returned (run (codec_needing (\<lambda>m. 40)) [two_links_deliver]
                    (main_state ''A'' [] ''amqp'' ''example'' 1))) = Some 2"
proof -
  let ?w = "main_state ''A'' [] ''amqp'' ''example'' 1"
  have w: "0 < sint (message_count (app ?w))" "received (app ?w) = 0" "buffer_ok ?w"
    "message_count (app ?w) = 1" "trace ?w = []"
    by (simp_all add: main_state_def buffer_ok_def)
  have ev: "length (events_of [two_links_deliver]) < 2 ^ 31"
    "length (filter arrival (handled (events_of [two_links_deliver]))) = 2"
    by (simp_all add: events_of_def two_links_deliver_def arrival_def link_opens_def
        message_arrives_def an_event_def a_link_def a_delivery_def not_inactive_def)
  from receiver_run [OF w(1,2,3) ev(1), of "\<lambda>m. 40"] obtain w' r where
    r: "run (codec_needing (\<lambda>m. 40)) [two_links_deliver] ?w = Some (Inr (w', r))"
    and c: "sint (received (app w')) = 2" "count_of is_link_close (trace w') = 2"
    unfolding ev(2) w(4,5) by auto
  from c(1) have "sint (received (app w')) = sint (2 :: c_int)" by simp
  then have "received (app w') = 2" by (simp only: word_eq_iff_signed [symmetric])
  with r c(2) show ?thesis by (simp add: returned_def)
qed

theorem receiver_counts_deliveries_witness:
  "ev_type (message_arrives 25 (a_link 3 False) 20 (Some ''{sequence=5}'')) = PN_DELIVERY
   \<and> dlv_readable (ev_delivery (message_arrives 25 (a_link 3 False) 20 (Some ''{sequence=5}'')))
   \<and> \<not> dlv_partial (ev_delivery (message_arrives 25 (a_link 3 False) 20 (Some ''{sequence=5}'')))
   \<and> message_count (app ((main_state ''A'' [] ''amqp'' ''example'' 5)
         \<lparr>app := (app (main_state ''A'' [] ''amqp'' ''example'' 5))\<lparr>received := 4\<rparr>\<rparr>)) \<noteq> 0
   \<and> trace (handle_receive (a_link 3 False)
         (message_arrives 25 (a_link 3 False) 20 (Some ''{sequence=5}''))
         ((main_state ''A'' [] ''amqp'' ''example'' 5)
            \<lparr>app := (app (main_state ''A'' [] ''amqp'' ''example'' 5))\<lparr>received := 4\<rparr>\<rparr>)) =
       [Link_recv 3 1024, Stdout (''{sequence=5}'' @ newline), Delivery_update 25 PN_ACCEPTED,
        Link_advance 3, Delivery_settle 25, Stdout (''5 messages received'' @ newline),
        Link_close 3, Session_close 5, Connection_close (Some 7)]
   \<and> 0 < sint (message_count (app (main_state ''A'' [] ''amqp'' ''example'' 5)))
   \<and> received (app (main_state ''A'' [] ''amqp'' ''example'' 5)) = 0
   \<and> buffer_ok (main_state ''A'' [] ''amqp'' ''example'' 5)
   \<and> length (events_of [five_messages]) < 2 ^ 31
   \<and> (\<exists>w' r. run (codec_needing (\<lambda>m. 40)) [five_messages]
                 (main_state ''A'' [] ''amqp'' ''example'' 5) = Some (Inr (w', r))
          \<and> sint (received (app w')) = 5
          \<and> count_of is_settle (trace w') = 5
          \<and> count_of is_link_close (trace w') = 1
          \<and> count_of is_session_close (trace w') = 1)"
proof -
  let ?l = "a_link 3 False"
  let ?e = "message_arrives 25 ?l 20 (Some ''{sequence=5}'')"
  let ?w = "main_state ''A'' [] ''amqp'' ''example'' 5"
  let ?v = "?w\<lparr>app := (app ?w)\<lparr>received := 4\<rparr>\<rparr>"
  let ?lib = "codec_needing (\<lambda>m. 40)"
  have e: "ev_type ?e = PN_DELIVERY" "dlv_readable (ev_delivery ?e)" "\<not> dlv_partial (ev_delivery ?e)"
    by (simp_all add: message_arrives_def an_event_def a_delivery_def)
  have d: "dlv_id (ev_delivery ?e) = 25" "link_id (dlv_link (ev_delivery ?e)) = 3"
    "session_id (link_session (dlv_link (ev_delivery ?e))) = 5"
    "session_connection (link_session (dlv_link (ev_delivery ?e))) = Some 7"
    by (simp_all add: message_arrives_def an_event_def a_delivery_def a_link_def)
  have v: "message_count (app ?v) \<noteq> 0" "message_count (app ?v) = 5" "received (app ?v) = 4"
    "trace (decode_message (ev_delivery ?e) ?v) = [Link_recv 3 1024, Stdout (''{sequence=5}'' @ newline)]"
    by (simp_all add: main_state_def decode_message_def message_arrives_def an_event_def
        a_delivery_def a_link_def act_def MAX_SIZE_def)
  have w: "0 < sint (message_count (app ?w))" "received (app ?w) = 0" "buffer_ok ?w"
    "message_count (app ?w) = 5" "trace ?w = []"
    by (simp_all add: main_state_def buffer_ok_def)
  have ev: "length (events_of [five_messages]) < 2 ^ 31"
    "length (filter arrival (handled (events_of [five_messages]))) = 5"
    by (simp_all add: events_of_def five_messages_def arrival_def
        message_arrives_def an_event_def a_link_def a_delivery_def not_inactive_def)
  have p: "printf_d 5 = ''5''"
    by code_simp
  note step = receiver_counts_deliveries [where e = ?e and w = ?v and l = ?l and need = "\<lambda>m. 40"
      and bs = "[]", THEN conjunct1]
  note runs = receiver_counts_deliveries [where e = ?e and w = ?w and l = ?l and need = "\<lambda>m. 40"
      and bs = "[five_messages]", THEN conjunct2]
  from step e v(1) have "trace (handle_receive ?l ?e ?v) =
       [Link_recv 3 1024, Stdout (''{sequence=5}'' @ newline), Delivery_update 25 PN_ACCEPTED,
        Link_advance 3, Delivery_settle 25, Stdout (''5 messages received'' @ newline),
        Link_close 3, Session_close 5, Connection_close (Some 7)]"
    unfolding Let_def d v(2,3,4) by (simp add: p)
  moreover from runs w(1,2,3) ev(1)
  have "\<exists>w' r. run ?lib [five_messages] ?w = Some (Inr (w', r))
          \<and> sint (received (app w')) = 5
          \<and> count_of is_settle (trace w') = 5
          \<and> count_of is_link_close (trace w') = 1
          \<and> count_of is_session_close (trace w') = 1"
    unfolding ev(2) w(4,5) by auto
  ultimately show ?thesis using e v(1) w(1,2,3) ev(1) by blast
qed

section \<open>Delivery tags\<close>

lemma send_chunk:
  fixes s mc :: c_int
  assumes "int n \<le> sint mc - sint s"
  shows "sorted_wrt (\<lambda>a b. sint a < sint b) (map (\<lambda>i. s + 1 + of_nat i) [0..<n])"
    and "\<forall>k\<in>set (map (\<lambda>i. s + 1 + of_nat i) [0..<n]).
           sint s < sint k \<and> sint k \<le> sint (s + of_nat n)"
proof -
  have at: "sint (s + 1 + of_nat i) = sint s + 1 + int i" if "i < n" for i
  proof -
    from that assms have "sint s + int (Suc i) \<le> sint mc" by simp
    then have "sint (s + of_nat (Suc i)) = sint s + int (Suc i)"
      by (rule sint_add_nat)
    then show ?thesis by (simp add: ac_simps)
  qed
  have fin: "sint (s + of_nat n) = sint s + int n"
    using assms by (intro sint_add_nat [of s n mc]) simp
  show "sorted_wrt (\<lambda>a b. sint a < sint b) (map (\<lambda>i. s + 1 + of_nat i) [0..<n])"
    by (simp add: sorted_wrt_iff_nth_less at)
  show "\<forall>k\<in>set (map (\<lambda>i. s + 1 + of_nat i) [0..<n]).
           sint s < sint k \<and> sint k \<le> sint (s + of_nat n)"
    by (auto simp: at fin)
qed

lemma tags_messages_not_plain:
  "list_all plain xs \<Longrightarrow> delivery_tags xs = [] \<and> sent_messages xs = []"
  by (induction xs)
    (auto simp: delivery_tags_def sent_messages_def tag_of_def message_of_def elim: plain.elims)

lemma tags_messages_not_decoding:
  "list_all decoding xs \<Longrightarrow> delivery_tags xs = [] \<and> sent_messages xs = []"
  by (induction xs)
    (auto simp: delivery_tags_def sent_messages_def tag_of_def message_of_def elim: decoding.elims)

lemma sender_run_tags:
  assumes "buffer_ok w" and "delivery_tags (trace w) = []" and "sent_messages (trace w) = []"
  shows "\<exists>w' r ks. run (codec_needing need) bs w = Some (Inr (w', r))
           \<and> delivery_tags (trace w') = map pn_dtag ks
           \<and> sent_messages (trace w') = map sequence_message ks
           \<and> distinct (delivery_tags (trace w'))"
proof -
  let ?lib = "codec_needing need"
  let ?lt = "\<lambda>a b :: c_int. sint a < sint b"
  define I :: "nat \<Rightarrow> world \<Rightarrow> bool" where
    "I = (\<lambda>n v. buffer_ok v
           \<and> (\<exists>ks. delivery_tags (trace v) = map pn_dtag ks
                 \<and> sent_messages (trace v) = map sequence_message ks
                 \<and> sorted_wrt ?lt ks
                 \<and> (\<forall>k\<in>set ks. sint k \<le> sint (sent (app v)))))"
  have step: "\<exists>v'. handle ?lib e v = Some (Inr (v', not_inactive e)) \<and> I n v'"
    if i: "I (Suc n) v" and "True" for n e v
  proof -
    from i obtain ks where ok: "buffer_ok v"
      and ks: "delivery_tags (trace v) = map pn_dtag ks"
        "sent_messages (trace v) = map sequence_message ks"
        "sorted_wrt ?lt ks" "\<forall>k\<in>set ks. sint k \<le> sint (sent (app v))"
      unfolding I_def by blast
    from ok show ?thesis
    proof (cases rule: handle_needing_cases [where need = need and e = e])
      case (plain xs x f)
      with ok ks tags_messages_not_plain [OF plain(2)] show ?thesis
        unfolding I_def by (auto simp: buffer_ok_def)
    next
      case (flow l b)
      let ?s = "sent (app v)"
      let ?m = "nat (min (sint (link_credit v (link_id l)))
                  (sint (message_count (app v)) - sint ?s))"
      let ?new = "map (\<lambda>i. ?s + 1 + of_nat i) [0..<?m]"
      have new: "sorted_wrt ?lt ?new"
        "\<forall>k\<in>set ?new. sint ?s < sint k \<and> sint k \<le> sint (?s + of_nat ?m)"
      proof -
        show "sorted_wrt ?lt ?new"
        proof (cases "?m = 0")
          case True
          then show ?thesis by simp
        next
          case False
          then have "int ?m \<le> sint (message_count (app v)) - sint ?s" by arith
          then show ?thesis by (rule send_chunk(1))
        qed
        show "\<forall>k\<in>set ?new. sint ?s < sint k \<and> sint k \<le> sint (?s + of_nat ?m)"
        proof (cases "?m = 0")
          case True
          then show ?thesis by simp
        next
          case False
          then have "int ?m \<le> sint (message_count (app v)) - sint ?s" by arith
          then show ?thesis by (rule send_chunk(2))
        qed
      qed
      have up: "sint ?s \<le> sint (?s + of_nat ?m)"
      proof (cases "?m = 0")
        case True
        then show ?thesis by simp
      next
        case False
        then have "sint ?s + int ?m \<le> sint (message_count (app v))" by arith
        then have "sint (?s + of_nat ?m) = sint ?s + int ?m" by (rule sint_add_nat)
        then show ?thesis by simp
      qed
      let ?v' = "v\<lparr>app := (app v)\<lparr>sent := ?s + of_nat ?m, message_buffer := b\<rparr>,
                   link_credit := (link_credit v)
                     (link_id l := link_credit v (link_id l) - of_nat ?m),
                   trace := trace v @ send_actions (link_id l) need ?s ?m\<rparr>"
      have a: "delivery_tags (trace ?v') = map pn_dtag (ks @ ?new)"
        by (simp add: ks(1) delivery_tags_send_actions comp_def del: upt_Suc)
      have b: "sent_messages (trace ?v') = map sequence_message (ks @ ?new)"
        by (simp add: ks(2) sent_messages_send_actions comp_def del: upt_Suc)
      have c: "sorted_wrt ?lt (ks @ ?new)"
        unfolding sorted_wrt_append using ks(3,4) new by fastforce
      have d: "\<forall>k\<in>set (ks @ ?new). sint k \<le> sint (sent (app ?v'))"
        using ks(4) new(2) up by fastforce
      have okv: "buffer_ok ?v'"
        using flow(4) by (simp add: buffer_ok_def)
      have "I n ?v'"
        unfolding I_def
      proof (intro conjI exI [of _ "ks @ ?new"])
        show "buffer_ok ?v'" by (rule okv)
        show "delivery_tags (trace ?v') = map pn_dtag (ks @ ?new)" by (rule a)
        show "sent_messages (trace ?v') = map sequence_message (ks @ ?new)" by (rule b)
        show "sorted_wrt ?lt (ks @ ?new)" by (rule c)
        show "\<forall>k\<in>set (ks @ ?new). sint k \<le> sint (sent (app ?v'))" by (rule d)
      qed
      with flow(1,5) show ?thesis by (simp add: not_inactive_def)
    next
      case (ack l)
      with ok ks show ?thesis
        unfolding I_def
        by (auto simp: buffer_ok_def not_inactive_def delivery_tags_def sent_messages_def
            tag_of_def message_of_def)
    next
      case (recv l ds)
      from tags_messages_not_decoding [OF recv(6)]
      have ds: "delivery_tags ds = []" "sent_messages ds = []" by simp_all
      have "\<exists>ks. delivery_tags (trace v) @ delivery_tags ds = map pn_dtag ks
          \<and> sent_messages (trace v) @ sent_messages ds = map sequence_message ks
          \<and> sorted_wrt ?lt ks \<and> (\<forall>k\<in>set ks. sint k \<le> sint (sent (app v)))"
        using ks ds by auto
      with recv(1,7) ok show ?thesis
        unfolding I_def
        by (simp add: Let_def buffer_ok_def not_inactive_def)
          (simp add: delivery_tags_def sent_messages_def tag_of_def message_of_def)
    qed
  qed
  have mono: "I n v" if "I (Suc n) v" for n v
    using that by (simp add: I_def)
  have wait: "I n ((act (Proactor_wait (proactor (app v))) v)\<lparr>link_credit := f\<rparr>)"
    if "I n v" for n v f
    using that
    by (simp add: I_def act_def buffer_ok_def delivery_tags_def sent_messages_def
        tag_of_def message_of_def)
  have dn: "I n (act (Proactor_done (proactor (app v))) v)" if "I n v" for n v
    using that
    by (simp add: I_def act_def buffer_ok_def delivery_tags_def sent_messages_def
        tag_of_def message_of_def)
  have start: "I (length (events_of bs) + 0) w"
    using assms by (simp add: I_def)
  have all: "list_all (\<lambda>e. True) (events_of bs)"
    by (simp add: list_all_iff)
  from run_invariant [of I "\<lambda>e. True" ?lib, OF step mono wait dn start all] obtain w' ks where
    r: "run ?lib bs w =
          Some (Inr (w', if list_all not_inactive (events_of bs) then Waiting else Returned))"
    and ks: "delivery_tags (trace w') = map pn_dtag ks"
      "sent_messages (trace w') = map sequence_message ks" "sorted_wrt ?lt ks"
    unfolding I_def by blast
  have "distinct ks"
    using ks(3) by (induction ks) auto
  moreover have "inj_on pn_dtag (set ks)"
    by (rule inj_onI) (rule pn_dtag_inject)
  ultimately have "distinct (delivery_tags (trace w'))"
    unfolding ks(1) by (simp add: distinct_map)
  with r ks show ?thesis by blast
qed


lemma link_flow_tags:
  assumes "ev_type e = PN_LINK_FLOW" and "buffer_ok w"
  shows "\<exists>w'. handle_send (codec_needing need) l e w = Some (Inr w')
           \<and> delivery_tags (trace w') = delivery_tags (trace w)
               @ map (\<lambda>i. pn_dtag (sent (app w) + 1 + of_nat i))
                   [0..<nat (min (sint (link_credit w (link_id l)))
                               (sint (message_count (app w)) - sint (sent (app w))))]
           \<and> sent_messages (trace w') = sent_messages (trace w)
               @ map (\<lambda>i. sequence_message (sent (app w) + 1 + of_nat i))
                   [0..<nat (min (sint (link_credit w (link_id l)))
                               (sint (message_count (app w)) - sint (sent (app w))))]"
proof -
  from send_loop_needing [OF assms(2) refl, where l = l and need = need] obtain b where
    "send_loop (codec_needing need) l w =
       Some (Inr (w\<lparr>app := (app w)
                        \<lparr>sent := sent (app w) + of_nat (nat (min (sint (link_credit w (link_id l)))
                             (sint (message_count (app w)) - sint (sent (app w))))),
                         message_buffer := b\<rparr>,
                      link_credit := (link_credit w)
                        (link_id l := link_credit w (link_id l)
                           - of_nat (nat (min (sint (link_credit w (link_id l)))
                             (sint (message_count (app w)) - sint (sent (app w)))))),
                      trace := trace w @ send_actions (link_id l) need (sent (app w))
                         (nat (min (sint (link_credit w (link_id l)))
                             (sint (message_count (app w)) - sint (sent (app w)))))\<rparr>))"
    by blast
  with assms(1) show ?thesis
    by (simp add: handle_send_def delivery_tags_send_actions sent_messages_send_actions
        del: upt_Suc)
qed


text \<open>
  Claim C4, as the code has it. The loop adds one to \<open>sent\<close> first and then takes both
  the delivery tag and the message from the counter: the tag of a delivery is the four
  bytes of the counter after the increment, and the id and the sequence value of its
  message are that same number. A sender that starts at 0 with \<open>message_count = 3\<close> and
  enough credit emits the tags and sequence values 1, 2, 3. Over a whole run the tags
  are those of an increasing series of counter values, each delivery's message carries
  the value of its tag, and no tag occurs twice.
\<close>

theorem delivery_tags_follow_counter:
  "(ev_type e = PN_LINK_FLOW \<and> buffer_ok w \<longrightarrow>
      (\<exists>w'. handle_send (codec_needing need) l e w = Some (Inr w')
         \<and> delivery_tags (trace w') = delivery_tags (trace w)
             @ map (\<lambda>i. pn_dtag (sent (app w) + 1 + of_nat i))
                 [0..<nat (min (sint (link_credit w (link_id l)))
                             (sint (message_count (app w)) - sint (sent (app w))))]
         \<and> sent_messages (trace w') = sent_messages (trace w)
             @ map (\<lambda>i. sequence_message (sent (app w) + 1 + of_nat i))
                 [0..<nat (min (sint (link_credit w (link_id l)))
                             (sint (message_count (app w)) - sint (sent (app w))))]))
   \<and> (buffer_ok w \<and> delivery_tags (trace w) = [] \<and> sent_messages (trace w) = [] \<longrightarrow>
        (\<exists>w' r ks. run (codec_needing need) bs w = Some (Inr (w', r))
           \<and> delivery_tags (trace w') = map pn_dtag ks
           \<and> sent_messages (trace w') = map sequence_message ks
           \<and> distinct (delivery_tags (trace w'))))"
  using link_flow_tags [of e w need l] sender_run_tags [of w need bs] by blast

theorem delivery_tags_follow_counter_counterexample:
  "map_option (delivery_tags \<circ> trace)
     (returned (handle_send (codec_needing (\<lambda>m. 40)) (a_link 4 True) (credit_arrives (a_link 4 True))
        ((main_state ''A'' [] ''amqp'' ''example'' 3)\<lparr>link_credit := (\<lambda>l. 10)\<rparr>)))
     = Some [[1, 0, 0, 0], [2, 0, 0, 0], [3, 0, 0, 0]]
   \<and> map pn_dtag [0, 1, 2] = [[0, 0, 0, 0], [1, 0, 0, 0], [2, 0, 0, 0]]
   \<and> map_option (sent_messages \<circ> trace)
      (returned (handle_send (codec_needing (\<lambda>m. 40)) (a_link 4 True) (credit_arrives (a_link 4 True))
        ((main_state ''A'' [] ''amqp'' ''example'' 3)\<lparr>link_credit := (\<lambda>l. 10)\<rparr>)))
     = Some [\<lparr>message_id = 1, message_body = [(''sequence'', 1)]\<rparr>,
             \<lparr>message_id = 2, message_body = [(''sequence'', 2)]\<rparr>,
             \<lparr>message_id = 3, message_body = [(''sequence'', 3)]\<rparr>]"
proof -
  let ?l = "a_link 4 True"
  let ?e = "credit_arrives ?l"
  let ?w = "(main_state ''A'' [] ''amqp'' ''example'' 3)\<lparr>link_credit := (\<lambda>l. 10)\<rparr>"
  have e: "ev_type ?e = PN_LINK_FLOW"
    by (simp add: credit_arrives_def an_event_def)
  have ok: "buffer_ok ?w"
    by (simp add: buffer_ok_def main_state_def)
  have n: "nat (min (sint (link_credit ?w (link_id ?l)))
                 (sint (message_count (app ?w)) - sint (sent (app ?w)))) = 3"
    by (simp add: main_state_def a_link_def)
  have w: "trace ?w = []" "sent (app ?w) = 0"
    by (simp_all add: main_state_def)
  have three: "[0..<3] = [0, 1, 2]"
    by (simp add: upt_rec)
  from link_flow_tags [OF e ok, where l = ?l and need = "\<lambda>m. 40", unfolded n] obtain w' where
    "handle_send (codec_needing (\<lambda>m. 40)) ?l ?e ?w = Some (Inr w')"
    "delivery_tags (trace w') = map (\<lambda>i. pn_dtag (0 + 1 + of_nat i)) [0..<3]"
    "sent_messages (trace w') = map (\<lambda>i. sequence_message (0 + 1 + of_nat i)) [0..<3]"
    unfolding w by (auto simp: delivery_tags_def sent_messages_def)
  then show ?thesis
    unfolding three
    by (simp add: returned_def pn_dtag_values sequence_message_def)
qed

theorem delivery_tags_follow_counter_witness:
  "ev_type (credit_arrives (a_link 4 True)) = PN_LINK_FLOW
   \<and> buffer_ok ((main_state ''A'' [] ''amqp'' ''example'' 3)\<lparr>link_credit := (\<lambda>l. 10)\<rparr>)
   \<and> (\<exists>w'. handle_send (codec_needing (\<lambda>m. 40)) (a_link 4 True) (credit_arrives (a_link 4 True))
              ((main_state ''A'' [] ''amqp'' ''example'' 3)\<lparr>link_credit := (\<lambda>l. 10)\<rparr>)
             = Some (Inr w')
         \<and> delivery_tags (trace w') = [[1, 0, 0, 0], [2, 0, 0, 0], [3, 0, 0, 0]]
         \<and> sent_messages (trace w') = [sequence_message 1, sequence_message 2, sequence_message 3])
   \<and> buffer_ok (main_state ''A'' [] ''amqp'' ''example'' 3)
   \<and> delivery_tags (trace (main_state ''A'' [] ''amqp'' ''example'' 3)) = []
   \<and> sent_messages (trace (main_state ''A'' [] ''amqp'' ''example'' 3)) = []
   \<and> (\<exists>w' r ks. run (codec_needing (\<lambda>m. 40)) [credit_granted]
                   (main_state ''A'' [] ''amqp'' ''example'' 3) = Some (Inr (w', r))
         \<and> delivery_tags (trace w') = map pn_dtag ks
         \<and> sent_messages (trace w') = map sequence_message ks
         \<and> distinct (delivery_tags (trace w')))"
proof -
  let ?l = "a_link 4 True"
  let ?e = "credit_arrives ?l"
  let ?u = "main_state ''A'' [] ''amqp'' ''example'' 3"
  let ?w = "?u\<lparr>link_credit := (\<lambda>l. 10)\<rparr>"
  have e: "ev_type ?e = PN_LINK_FLOW"
    by (simp add: credit_arrives_def an_event_def)
  have ok: "buffer_ok ?w" "buffer_ok ?u"
    by (simp_all add: buffer_ok_def main_state_def)
  have n: "nat (min (sint (link_credit ?w (link_id ?l)))
                 (sint (message_count (app ?w)) - sint (sent (app ?w)))) = 3"
    by (simp add: main_state_def a_link_def)
  have w: "delivery_tags (trace ?w) = []" "sent_messages (trace ?w) = []" "sent (app ?w) = 0"
    by (simp_all add: main_state_def delivery_tags_def sent_messages_def)
  have u: "delivery_tags (trace ?u) = []" "sent_messages (trace ?u) = []"
    by (simp_all add: main_state_def delivery_tags_def sent_messages_def)
  have three: "[0..<3] = [0, 1, 2]"
    by (simp add: upt_rec)
  note step = delivery_tags_follow_counter [where e = ?e and w = ?w and need = "\<lambda>m. 40"
      and l = ?l and bs = "[]", THEN conjunct1, unfolded n]
  note runs = delivery_tags_follow_counter [where e = ?e and w = ?u and need = "\<lambda>m. 40"
      and l = ?l and bs = "[credit_granted]", THEN conjunct2]
  from step e ok(1)
  have "\<exists>w'. handle_send (codec_needing (\<lambda>m. 40)) ?l ?e ?w = Some (Inr w')
         \<and> delivery_tags (trace w') = [[1, 0, 0, 0], [2, 0, 0, 0], [3, 0, 0, 0]]
         \<and> sent_messages (trace w') = [sequence_message 1, sequence_message 2, sequence_message 3]"
    unfolding w three by (simp add: pn_dtag_values)
  moreover from runs ok(2) u
  have "\<exists>w' r ks. run (codec_needing (\<lambda>m. 40)) [credit_granted] ?u = Some (Inr (w', r))
         \<and> delivery_tags (trace w') = map pn_dtag ks
         \<and> sent_messages (trace w') = map sequence_message ks
         \<and> distinct (delivery_tags (trace w'))"
    by blast
  ultimately show ?thesis using e ok u by blast
qed

end
